theory Spec2Isabelle
  imports Main "HOL-Library.Sublist"
begin

section \<open>The lexer engine of zserge/lex\<close>

text \<open>
  The development follows the latest of the three evolutions of the engine kept in the
  repository: the \<^verbatim>\<open>lexer\<close> that reads through its own \<^verbatim>\<open>bufreader\<close> and keeps a stack
  of saved positions (\<^verbatim>\<open>prevPos []pos\<close>). Of the two earlier ones, which share their \<open>Next\<close>
  and \<open>Backup\<close>, these two operations are modelled as well.

  Conventions of the embedding.
  \<^item> A Go \<^verbatim>\<open>rune\<close> (int32) is an \<open>int\<close>; runes are only stored and compared. The sentinel
    \<^verbatim>\<open>EOF\<close> is \<open>-1\<close>. A Go \<^verbatim>\<open>string\<close> is the list of its runes (\<^verbatim>\<open>string(lex.value)\<close> of
    runes that were decoded from a reader is that list again).
  \<^item> Go's \<^verbatim>\<open>int\<close> counters (line, column, offset, buffer index) are \<open>int\<close>: they move by one
    per character, so the 64-bit wrap-around is out of reach.
  \<^item> A method that mutates its receiver takes the receiver and returns the new one.
  \<^item> A Go run-time panic (index or slice bounds out of range) is the value \<open>Inl\<close> of a
    sum; \<open>Inr\<close> is a normal return.
  \<^item> The unbuffered channel \<^verbatim>\<open>tokens\<close> is the list of the tokens sent on it so far, in
    order; the consumer is taken to receive every token. \<^verbatim>\<open>close(lex.tokens)\<close> is the
    normal return of \<open>Run\<close>.
\<close>

type_synonym rune = int
type_synonym gostring = "rune list"
type_synonym TokenType = int

definition EOF :: rune where
  "EOF = - 1"

definition TokError :: TokenType where
  "TokError = - 1"

text \<open>
  The rune view of a string literal, and the code points a reader delivers for it. A
  string literal stands for its characters one by one, which is what Go's UTF-8 decoding
  gives for ASCII text; every literal below is ASCII. Theorems about arbitrary input
  quantify over the list of code points itself.
\<close>

definition codepoints :: "string \<Rightarrow> nat list" where
  "codepoints s = map of_char s"

definition gostr :: "string \<Rightarrow> gostring" where
  "gostr s = map int (codepoints s)"

datatype panic = IndexOutOfRange | SliceBoundsOutOfRange

text \<open>A Go \<^verbatim>\<open>error\<close> value: \<^verbatim>\<open>io.EOF\<close>, or any other error with its message.\<close>

datatype error = io_EOF | Err gostring

fun Error :: "error \<Rightarrow> gostring" where
  "Error io_EOF = gostr ''EOF''"
| "Error (Err msg) = msg"

subsection \<open>Positions\<close>

record pos =
  line :: int
  col :: int
  pos :: int

definition CopyTo :: "pos \<Rightarrow> pos \<Rightarrow> pos" where
  "CopyTo p to = to\<lparr>line := line p, col := col p, pos := pos p\<rparr>"

definition Advance :: "rune \<Rightarrow> pos \<Rightarrow> pos" where
  "Advance r p =
     (let p = p\<lparr>col := col p + 1\<rparr>;
          p = p\<lparr>pos := pos p + 1\<rparr>
      in if r = 10 then (let p = p\<lparr>line := line p + 1\<rparr> in p\<lparr>col := 0\<rparr>) else p)"

text \<open>The zero value of \<^verbatim>\<open>pos\<close>.\<close>

definition pos0 :: pos where
  "pos0 = \<lparr>line = 0, col = 0, pos = 0\<rparr>"

subsection \<open>Tokens\<close>

record 'x Token =
  Type :: TokenType
  Value :: gostring
  Line :: int
  Col :: int
  Pos :: int
  Extra :: "'x option"

subsection \<open>The character source\<close>

text \<open>
  The \<^verbatim>\<open>bufio.Reader\<close> under the engine, as far as the engine can observe it: the code
  points it still delivers, and the error it reports once they are used up (\<^verbatim>\<open>io.EOF\<close> at
  an ordinary end). \<^verbatim>\<open>bufio.Reader.ReadRune\<close> returns the rune \<open>0\<close> with the error; the byte
  size it also returns is dropped by every caller. \<open>bufreader\<close> never reads again after the
  first error, so what the source would do after it is not part of the model.
\<close>

record bufio_Reader =
  src_runes :: "nat list"
  src_err :: error

definition bufio_ReadRune :: "bufio_Reader \<Rightarrow> rune \<times> error option \<times> bufio_Reader" where
  "bufio_ReadRune b =
     (case src_runes b of
        [] \<Rightarrow> (0, Some (src_err b), b)
      | c # cs \<Rightarrow> (int c, None, b\<lparr>src_runes := cs\<rparr>))"

record bufreader =
  br_r :: bufio_Reader
  br_buf :: "rune list"
  br_pos :: int
  br_err :: "error option"

definition newbufreader :: "bufio_Reader \<Rightarrow> bufreader" where
  "newbufreader rd = \<lparr>br_r = rd, br_buf = [], br_pos = 0, br_err = None\<rparr>"

definition br_ReadRune :: "bufreader \<Rightarrow> panic + (rune \<times> error option \<times> bufreader)" where
  "br_ReadRune br =
     (if br_err br \<noteq> None then Inr (0, br_err br, br)
      else if br_pos br < int (length (br_buf br)) then
        (if br_pos br < 0 then Inl IndexOutOfRange
         else Inr (br_buf br ! nat (br_pos br), None, br\<lparr>br_pos := br_pos br + 1\<rparr>))
      else
        (case bufio_ReadRune (br_r br) of
           (c, Some e, rd) \<Rightarrow> Inr (c, Some e, br\<lparr>br_r := rd, br_err := Some e\<rparr>)
         | (c, None, rd) \<Rightarrow>
             (let br = br\<lparr>br_r := rd, br_buf := br_buf br @ [c]\<rparr>
              in Inr (c, None, br\<lparr>br_pos := int (length (br_buf br))\<rparr>))))"

text \<open>
  \<^verbatim>\<open>UnreadRune\<close> decrements first and reports an error afterwards; the position stays
  decremented.
\<close>

definition br_UnreadRune :: "bufreader \<Rightarrow> error option \<times> bufreader" where
  "br_UnreadRune br =
     (let br = br\<lparr>br_pos := br_pos br - 1\<rparr>
      in if br_pos br < 0 then (Some (Err (gostr ''reader position is out of bounds'')), br)
         else (None, br))"

definition br_Ignore :: "bufreader \<Rightarrow> bufreader" where
  "br_Ignore br =
     (let br = br\<lparr>br_pos := 0\<rparr>
      in if length (br_buf br) > 0
         then br\<lparr>br_buf := drop (length (br_buf br) - 1) (br_buf br)\<rparr>
         else br)"

subsection \<open>The engine\<close>

record 'x lexer =
  lex_r :: bufreader
  lex_tokens :: "'x Token list"
  lex_eof :: bool
  lex_value :: "rune list"
  lex_pos :: pos
  lex_tokenPos :: pos
  lex_prevPos :: "pos list"

definition NewLexer :: "bufio_Reader \<Rightarrow> 'x lexer" where
  "NewLexer rd =
     \<lparr>lex_r = newbufreader rd, lex_tokens = [], lex_eof = False, lex_value = [],
      lex_pos = pos0, lex_tokenPos = pos0, lex_prevPos = []\<rparr>"

definition NewLexerString :: "string \<Rightarrow> 'x lexer" where
  "NewLexerString s = NewLexer \<lparr>src_runes = codepoints s, src_err = io_EOF\<rparr>"

definition lexer_Line :: "'x lexer \<Rightarrow> int" where
  "lexer_Line lx = line (lex_pos lx)"

definition lexer_Col :: "'x lexer \<Rightarrow> int" where
  "lexer_Col lx = col (lex_pos lx)"

definition lexer_Pos :: "'x lexer \<Rightarrow> int" where
  "lexer_Pos lx = pos (lex_pos lx)"

definition lexer_Value :: "'x lexer \<Rightarrow> gostring" where
  "lexer_Value lx = lex_value lx"

text \<open>
  \<^verbatim>\<open>fmt.Sprintf\<close> is a parameter \<open>sprintf\<close> of every function that formats a message. The
  state function that \<open>Errorf\<close> returns is always \<^verbatim>\<open>nil\<close>: \<open>None\<close>, in any type \<open>'q\<close> of
  state functions.
\<close>

definition Errorf ::
  "(gostring \<Rightarrow> 'a list \<Rightarrow> gostring) \<Rightarrow> TokenType \<Rightarrow> gostring \<Rightarrow> 'a list \<Rightarrow> 'x lexer
    \<Rightarrow> 'q option \<times> 'x lexer" where
  "Errorf sprintf t s args lx =
     (let v = sprintf s args
      in (None,
          lx\<lparr>lex_tokens := lex_tokens lx @
            [\<lparr>Type = t, Value = v, Line = lexer_Line lx, Col = lexer_Col lx,
              Pos = lexer_Pos lx, Extra = None\<rparr>]\<rparr>))"

definition Next ::
  "(gostring \<Rightarrow> 'a list \<Rightarrow> gostring) \<Rightarrow> 'x lexer \<Rightarrow> panic + (rune \<times> 'x lexer)" where
  "Next sprintf lx =
     (case br_ReadRune (lex_r lx) of
        Inl p \<Rightarrow> Inl p
      | Inr (r, Some e, br) \<Rightarrow>
          (let lx = lx\<lparr>lex_r := br\<rparr>;
               lx = (if e \<noteq> io_EOF
                     then snd (Errorf sprintf TokError (Error e) [] lx :: unit option \<times> 'x lexer)
                     else lx);
               lx = lx\<lparr>lex_value := lex_value lx @ [r]\<rparr>;
               lx = lx\<lparr>lex_eof := True\<rparr>
           in Inr (EOF, lx))
      | Inr (r, None, br) \<Rightarrow>
          (let lx = lx\<lparr>lex_r := br\<rparr>;
               prev = CopyTo (lex_pos lx) pos0;
               lx = lx\<lparr>lex_pos := Advance r (lex_pos lx)\<rparr>;
               lx = lx\<lparr>lex_prevPos := lex_prevPos lx @ [prev]\<rparr>;
               lx = lx\<lparr>lex_value := lex_value lx @ [r]\<rparr>
           in Inr (r, lx)))"

definition Backup :: "'x lexer \<Rightarrow> panic + 'x lexer" where
  "Backup lx =
     (let lx = lx\<lparr>lex_r := snd (br_UnreadRune (lex_r lx))\<rparr>
      in if lex_value lx = [] then Inl SliceBoundsOutOfRange
         else
           (let lx = lx\<lparr>lex_value := take (length (lex_value lx) - 1) (lex_value lx)\<rparr>
            in if lex_prevPos lx = [] then Inl IndexOutOfRange
               else
                 (let prev = lex_prevPos lx ! (length (lex_prevPos lx) - 1);
                      lx = lx\<lparr>lex_pos := CopyTo prev (lex_pos lx)\<rparr>
                  in Inr (lx\<lparr>lex_prevPos :=
                            take (length (lex_prevPos lx) - 1) (lex_prevPos lx)\<rparr>))))"

definition Peek ::
  "(gostring \<Rightarrow> 'a list \<Rightarrow> gostring) \<Rightarrow> 'x lexer \<Rightarrow> panic + (rune \<times> 'x lexer)" where
  "Peek sprintf lx =
     (case Next sprintf lx of
        Inl p \<Rightarrow> Inl p
      | Inr (r, lx) \<Rightarrow> (case Backup lx of Inl p \<Rightarrow> Inl p | Inr lx \<Rightarrow> Inr (r, lx)))"

definition Ignore :: "'x lexer \<Rightarrow> 'x lexer" where
  "Ignore lx =
     (let lx = lx\<lparr>lex_tokenPos := CopyTo (lex_pos lx) (lex_tokenPos lx)\<rparr>;
          lx = lx\<lparr>lex_value := []\<rparr>
      in lx\<lparr>lex_r := br_Ignore (lex_r lx)\<rparr>)"

definition EmitExtra :: "TokenType \<Rightarrow> 'x option \<Rightarrow> 'x lexer \<Rightarrow> 'x lexer" where
  "EmitExtra t extra lx =
     Ignore (lx\<lparr>lex_tokens := lex_tokens lx @
       [\<lparr>Type = t, Value = lexer_Value lx, Line = line (lex_tokenPos lx),
         Col = col (lex_tokenPos lx), Pos = pos (lex_tokenPos lx), Extra = extra\<rparr>]\<rparr>)"

definition Emit :: "TokenType \<Rightarrow> 'x lexer \<Rightarrow> 'x lexer" where
  "Emit t lx = EmitExtra t None lx"

subsection \<open>The driver\<close>

text \<open>
  A \<^verbatim>\<open>StateFn\<close> is a Go function value that returns the next function value or \<^verbatim>\<open>nil\<close>. The
  state functions of a program are named by the values of a type \<open>'q\<close>, and \<open>step q\<close> is the
  body of the function named \<open>q\<close>: it returns the name of the next function (\<open>None\<close> for
  \<^verbatim>\<open>nil\<close>) with the engine as it leaves it, or panics. The loop of \<^verbatim>\<open>Run\<close> may go on for
  ever; then its value is \<open>None\<close>. \<open>Some (Inr lx)\<close> is the loop left and the channel closed,
  \<open>lex_tokens lx\<close> being everything that was delivered; \<open>Some (Inl p)\<close> is a panic of the
  producer, which never closes the channel.
\<close>

partial_function (option) Run_loop ::
  "('q \<Rightarrow> 'x lexer \<Rightarrow> panic + ('q option \<times> 'x lexer)) \<Rightarrow> 'q option \<Rightarrow> 'x lexer
    \<Rightarrow> (panic + 'x lexer) option" where
  "Run_loop step state lx =
     (case state of
        None \<Rightarrow> Some (Inr lx)
      | Some q \<Rightarrow>
          if lex_eof lx then Some (Inr lx)
          else (case step q lx of
                  Inl p \<Rightarrow> Some (Inl p)
                | Inr (state', lx') \<Rightarrow> Run_loop step state' lx'))"

declare Run_loop.simps [code]

definition Run ::
  "('q \<Rightarrow> 'x lexer \<Rightarrow> panic + ('q option \<times> 'x lexer)) \<Rightarrow> 'q \<Rightarrow> 'x lexer
    \<Rightarrow> (panic + 'x lexer) option" where
  "Run step start lx = Run_loop step (Some start) lx"

text \<open>
  The stream a consumer has received when the channel is closed; \<open>None\<close> when the producer
  never closes it.
\<close>

definition closed_stream :: "(panic + 'x lexer) option \<Rightarrow> 'x Token list option" where
  "closed_stream res = (case res of Some (Inr lx) \<Rightarrow> Some (lex_tokens lx) | _ \<Rightarrow> None)"

subsection \<open>The earlier engine\<close>

text \<open>
  The two earlier evolutions (\<^verbatim>\<open>lex.go\<close>) read from the \<^verbatim>\<open>bufio.Reader\<close> itself and keep
  one saved position; their \<open>Next\<close> and \<open>Backup\<close> are the same text. \<^verbatim>\<open>bufio.Reader.UnreadRune\<close>
  puts back the rune of the last \<^verbatim>\<open>ReadRune\<close> if that call delivered one and nothing was
  unread since, and otherwise returns an error and does nothing; \<open>src_last\<close> is that rune.
\<close>

record bufio_Unreader = bufio_Reader +
  src_last :: "nat option"

definition bufio_ReadRune_u :: "bufio_Unreader \<Rightarrow> rune \<times> error option \<times> bufio_Unreader" where
  "bufio_ReadRune_u b =
     (case src_runes b of
        [] \<Rightarrow> (0, Some (src_err b), b\<lparr>src_last := None\<rparr>)
      | c # cs \<Rightarrow> (int c, None, b\<lparr>src_runes := cs, src_last := Some c\<rparr>))"

definition bufio_UnreadRune :: "bufio_Unreader \<Rightarrow> error option \<times> bufio_Unreader" where
  "bufio_UnreadRune b =
     (case src_last b of
        None \<Rightarrow> (Some (Err (gostr ''bufio: invalid use of UnreadRune'')), b)
      | Some c \<Rightarrow> (None, b\<lparr>src_runes := c # src_runes b, src_last := None\<rparr>))"

record 'x Lexer =
  Lex_r :: bufio_Unreader
  Lex_tokens :: "'x Token list"
  Lex_eof :: bool
  Lex_value :: "rune list"
  Lex_pos :: pos
  Lex_prevPos :: pos
  Lex_tokenPos :: pos

definition Lexer_New :: "bufio_Reader \<Rightarrow> 'x Lexer" where
  "Lexer_New rd =
     \<lparr>Lex_r = \<lparr>src_runes = src_runes rd, src_err = src_err rd, src_last = None\<rparr>,
      Lex_tokens = [], Lex_eof = False, Lex_value = [], Lex_pos = pos0, Lex_prevPos = pos0,
      Lex_tokenPos = pos0\<rparr>"

definition Lexer_Errorf ::
  "(gostring \<Rightarrow> 'a list \<Rightarrow> gostring) \<Rightarrow> TokenType \<Rightarrow> gostring \<Rightarrow> 'a list \<Rightarrow> 'x Lexer
    \<Rightarrow> 'q option \<times> 'x Lexer" where
  "Lexer_Errorf sprintf t s args lx =
     (let v = sprintf s args
      in (None,
          lx\<lparr>Lex_tokens := Lex_tokens lx @
            [\<lparr>Type = t, Value = v, Line = line (Lex_pos lx), Col = col (Lex_pos lx),
              Pos = pos (Lex_pos lx), Extra = None\<rparr>]\<rparr>))"

definition Lexer_Next ::
  "(gostring \<Rightarrow> 'a list \<Rightarrow> gostring) \<Rightarrow> 'x Lexer \<Rightarrow> rune \<times> 'x Lexer" where
  "Lexer_Next sprintf lx =
     (case bufio_ReadRune_u (Lex_r lx) of
        (r, Some e, b) \<Rightarrow>
          (let lx = lx\<lparr>Lex_r := b\<rparr>;
               lx = (if e \<noteq> io_EOF
                     then snd (Lexer_Errorf sprintf TokError (Error e) [] lx
                            :: unit option \<times> 'x Lexer)
                     else lx);
               lx = lx\<lparr>Lex_value := Lex_value lx @ [r]\<rparr>;
               lx = lx\<lparr>Lex_eof := True\<rparr>
           in (EOF, lx))
      | (r, None, b) \<Rightarrow>
          (let lx = lx\<lparr>Lex_r := b\<rparr>;
               lx = lx\<lparr>Lex_prevPos := CopyTo (Lex_pos lx) (Lex_prevPos lx)\<rparr>;
               lx = lx\<lparr>Lex_pos := Advance r (Lex_pos lx)\<rparr>;
               lx = lx\<lparr>Lex_value := Lex_value lx @ [r]\<rparr>
           in (r, lx)))"

definition Lexer_Backup :: "'x Lexer \<Rightarrow> panic + 'x Lexer" where
  "Lexer_Backup lx =
     (let lx = lx\<lparr>Lex_r := snd (bufio_UnreadRune (Lex_r lx))\<rparr>
      in if Lex_value lx = [] then Inl SliceBoundsOutOfRange
         else
           (let lx = lx\<lparr>Lex_value := take (length (Lex_value lx) - 1) (Lex_value lx)\<rparr>
            in Inr (lx\<lparr>Lex_pos := CopyTo (Lex_prevPos lx) (Lex_pos lx)\<rparr>)))"

subsection \<open>The state functions of the test suite\<close>

definition TokWord :: TokenType where
  "TokWord = 0"

definition isSpace :: "rune \<Rightarrow> bool" where
  "isSpace r = (r = 32 \<or> r = 9 \<or> r = 13 \<or> r = 10)"

datatype test_fn = fn_lexWord | fn_lexSkipSpaces

text \<open>
  \<open>lexWord\<close> and \<open>lexSkipSpaces\<close> of \<^verbatim>\<open>lex_test.go\<close> use only \<open>Next\<close>, \<open>Peek\<close>, \<open>Backup\<close>,
  \<open>Ignore\<close> and \<open>Emit\<close>; they are run here on the latest engine, the one whose constructors
  \<open>NewLexer\<close> and \<open>NewLexerString\<close> the tests call. Each is named by a constructor of
  \<open>test_fn\<close>, and \<open>test_step\<close> runs the body that belongs to a name.

  The characters the reader can still deliver: the bound of both scanning loops.
\<close>

definition remaining :: "'x lexer \<Rightarrow> nat" where
  "remaining lx =
     (if br_err (lex_r lx) \<noteq> None then 0
      else nat (int (length (br_buf (lex_r lx))) - br_pos (lex_r lx))
           + length (src_runes (br_r (lex_r lx))))"

lemma Next_remaining:
  "Next sprintf lx = Inr (r, lx') \<Longrightarrow> r \<noteq> EOF \<Longrightarrow> remaining lx' < remaining lx"
  by (auto simp: Next_def br_ReadRune_def bufio_ReadRune_def remaining_def Let_def
      split: if_splits list.splits)

lemma Next_buffered_remaining:
  "Next sprintf lx = Inr (r, lx') \<Longrightarrow> br_err (lex_r lx) = None
    \<Longrightarrow> br_pos (lex_r lx) < int (length (br_buf (lex_r lx)))
    \<Longrightarrow> remaining lx' < remaining lx"
  by (auto simp: Next_def br_ReadRune_def remaining_def Let_def split: if_splits)

lemma Peek_remaining:
  "Peek sprintf lx = Inr (r, lx') \<Longrightarrow> r \<noteq> EOF
    \<Longrightarrow> br_err (lex_r lx') = None
      \<and> br_pos (lex_r lx') < int (length (br_buf (lex_r lx')))
      \<and> remaining lx' \<le> remaining lx"
  by (auto simp: Peek_def Next_def Backup_def br_ReadRune_def bufio_ReadRune_def
      br_UnreadRune_def remaining_def Let_def split: if_splits list.splits sum.splits)

function skip_loop ::
  "(gostring \<Rightarrow> 'a list \<Rightarrow> gostring) \<Rightarrow> 'x lexer \<Rightarrow> panic + 'x lexer" where
  "skip_loop sprintf lx =
     (case Next sprintf lx of
        Inl p \<Rightarrow> Inl p
      | Inr (r, lx') \<Rightarrow> if isSpace r then skip_loop sprintf lx' else Inr lx')"
  by pat_completeness auto
termination
proof (relation "measure (\<lambda>(sprintf, lx). remaining lx)")
  show "wf (measure (\<lambda>(sprintf :: gostring \<Rightarrow> 'a list \<Rightarrow> gostring, lx :: 'x lexer). remaining lx))"
    by simp
next
  fix sprintf :: "gostring \<Rightarrow> 'a list \<Rightarrow> gostring" and lx :: "'x lexer" and x2 r lx'
  assume "Next sprintf lx = Inr x2" "(r, lx') = x2" "isSpace r"
  then have "Next sprintf lx = Inr (r, lx')" and "r \<noteq> EOF"
    by (auto simp: isSpace_def EOF_def)
  then show "((sprintf, lx'), (sprintf, lx)) \<in> measure (\<lambda>(sprintf, lx). remaining lx)"
    by (simp add: Next_remaining)
qed

declare skip_loop.simps [simp del]

definition lexSkipSpaces ::
  "(gostring \<Rightarrow> 'a list \<Rightarrow> gostring) \<Rightarrow> 'x lexer \<Rightarrow> panic + (test_fn option \<times> 'x lexer)" where
  "lexSkipSpaces sprintf lx =
     (case skip_loop sprintf lx of
        Inl p \<Rightarrow> Inl p
      | Inr lx \<Rightarrow>
          (case Backup lx of
             Inl p \<Rightarrow> Inl p
           | Inr lx \<Rightarrow> Inr (Some fn_lexWord, Ignore lx)))"

function lexWord ::
  "(gostring \<Rightarrow> 'a list \<Rightarrow> gostring) \<Rightarrow> 'x lexer \<Rightarrow> panic + (test_fn option \<times> 'x lexer)" where
  "lexWord sprintf lx =
     (case Peek sprintf lx of
        Inl p \<Rightarrow> Inl p
      | Inr (r, lx1) \<Rightarrow>
          if isSpace r then Inr (Some fn_lexSkipSpaces, Emit TokWord lx1)
          else if r = EOF then Inr (None, Emit TokWord lx1)
          else (case Next sprintf lx1 of
                  Inl p \<Rightarrow> Inl p
                | Inr (r2, lx2) \<Rightarrow> lexWord sprintf lx2))"
  by pat_completeness auto
termination
proof (relation "measure (\<lambda>(sprintf, lx). remaining lx)")
  show "wf (measure (\<lambda>(sprintf :: gostring \<Rightarrow> 'a list \<Rightarrow> gostring, lx :: 'x lexer). remaining lx))"
    by simp
next
  fix sprintf :: "gostring \<Rightarrow> 'a list \<Rightarrow> gostring" and lx :: "'x lexer"
    and x2 r lx1 y2 r2 lx2
  assume a: "Peek sprintf lx = Inr x2" "(r, lx1) = x2" "r \<noteq> EOF"
    "Next sprintf lx1 = Inr y2" "(r2, lx2) = y2"
  from a have pk: "Peek sprintf lx = Inr (r, lx1)" by simp
  from a have nx: "Next sprintf lx1 = Inr (r2, lx2)" by simp
  from Peek_remaining [OF pk \<open>r \<noteq> EOF\<close>] Next_buffered_remaining [OF nx]
  have "remaining lx2 < remaining lx" by simp
  then show "((sprintf, lx2), (sprintf, lx)) \<in> measure (\<lambda>(sprintf, lx). remaining lx)"
    by simp
qed

declare lexWord.simps [simp del]

definition test_step ::
  "(gostring \<Rightarrow> 'a list \<Rightarrow> gostring) \<Rightarrow> test_fn \<Rightarrow> 'x lexer
    \<Rightarrow> panic + (test_fn option \<times> 'x lexer)" where
  "test_step sprintf q =
     (case q of fn_lexWord \<Rightarrow> lexWord sprintf | fn_lexSkipSpaces \<Rightarrow> lexSkipSpaces sprintf)"

text \<open>The defining equations that evaluate the engine on a concrete input.\<close>

lemmas engine_defs =
  Next_def Peek_def Backup_def Ignore_def Emit_def EmitExtra_def Errorf_def
  br_ReadRune_def br_UnreadRune_def br_Ignore_def bufio_ReadRune_def
  NewLexer_def NewLexerString_def newbufreader_def CopyTo_def Advance_def pos0_def
  lexer_Line_def lexer_Col_def lexer_Pos_def lexer_Value_def isSpace_def EOF_def
  TokError_def TokWord_def codepoints_def gostr_def Let_def

lemmas Lexer_defs =
  Lexer_New_def Lexer_Errorf_def Lexer_Next_def Lexer_Backup_def bufio_ReadRune_u_def
  bufio_UnreadRune_def

lemmas run_defs =
  Run_def Run_loop.simps test_step_def lexSkipSpaces_def skip_loop.simps lexWord.simps

subsection \<open>Sequences of engine calls\<close>

text \<open>
  Whatever a chain of state functions does to the engine is a sequence of calls of the
  engine's methods. \<open>exec\<close> runs such a sequence and records every step: the call, the
  rune it returned (for \<open>Next\<close> and \<open>Peek\<close>), and the engine before and after it. A panic
  ends the run.
\<close>

datatype ('x, 'a) call =
  CallNext | CallPeek | CallBackup | CallIgnore
| CallEmit TokenType | CallEmitExtra TokenType "'x option"
| CallErrorf TokenType gostring "'a list"

fun call1 ::
  "(gostring \<Rightarrow> 'a list \<Rightarrow> gostring) \<Rightarrow> ('x, 'a) call \<Rightarrow> 'x lexer
    \<Rightarrow> panic + (rune option \<times> 'x lexer)" where
  "call1 sprintf CallNext lx =
     (case Next sprintf lx of Inl p \<Rightarrow> Inl p | Inr (r, lx') \<Rightarrow> Inr (Some r, lx'))"
| "call1 sprintf CallPeek lx =
     (case Peek sprintf lx of Inl p \<Rightarrow> Inl p | Inr (r, lx') \<Rightarrow> Inr (Some r, lx'))"
| "call1 sprintf CallBackup lx =
     (case Backup lx of Inl p \<Rightarrow> Inl p | Inr lx' \<Rightarrow> Inr (None, lx'))"
| "call1 sprintf CallIgnore lx = Inr (None, Ignore lx)"
| "call1 sprintf (CallEmit t) lx = Inr (None, Emit t lx)"
| "call1 sprintf (CallEmitExtra t extra) lx = Inr (None, EmitExtra t extra lx)"
| "call1 sprintf (CallErrorf t s args) lx =
     Inr (None, snd (Errorf sprintf t s args lx :: unit option \<times> 'x lexer))"

record ('x, 'a) step =
  step_call :: "('x, 'a) call"
  step_ret :: "rune option"
  step_before :: "'x lexer"
  step_after :: "'x lexer"

fun exec ::
  "(gostring \<Rightarrow> 'a list \<Rightarrow> gostring) \<Rightarrow> ('x, 'a) call list \<Rightarrow> 'x lexer
    \<Rightarrow> panic + (('x, 'a) step list \<times> 'x lexer)" where
  "exec sprintf [] lx = Inr ([], lx)"
| "exec sprintf (c # cs) lx =
     (case call1 sprintf c lx of
        Inl p \<Rightarrow> Inl p
      | Inr (ret, lx') \<Rightarrow>
          (case exec sprintf cs lx' of
             Inl p \<Rightarrow> Inl p
           | Inr (steps, lx'') \<Rightarrow>
               Inr (\<lparr>step_call = c, step_ret = ret, step_before = lx, step_after = lx'\<rparr> # steps,
                    lx'')))"

subsection \<open>What a run delivers, in the words of the specification\<close>

text \<open>
  The notions below are read off the recorded steps of a run; none of them is part of the
  engine.
\<close>

text \<open>
  \<open>recon\<close> is the concatenation, in the order of the calls, of the texts of the tokens
  published by \<open>Emit\<close> and \<open>EmitExtra\<close> and of the spans discarded by \<open>Ignore\<close> (the value of
  \<open>Value()\<close> when \<open>Ignore\<close> is called). Tokens published by \<open>Errorf\<close>, by a state function or
  inside \<open>Next\<close>, are error tokens and contribute nothing. \<open>pos_of p\<close> is the position the
  specification gives to the end of the text \<open>p\<close>: the number of newlines in \<open>p\<close>, the
  number of characters after the last newline, and the number of characters.
\<close>

datatype 'x event = Emitted "'x Token" | Discarded gostring | Failure "'x Token"

definition sent :: "('x, 'a) step \<Rightarrow> 'x Token list" where
  "sent st = drop (length (lex_tokens (step_before st))) (lex_tokens (step_after st))"

definition events_of :: "('x, 'a) step \<Rightarrow> 'x event list" where
  "events_of st =
     (case step_call st of
        CallIgnore \<Rightarrow> [Discarded (lexer_Value (step_before st))]
      | CallEmit t \<Rightarrow> map Emitted (sent st)
      | CallEmitExtra t extra \<Rightarrow> map Emitted (sent st)
      | CallBackup \<Rightarrow> []
      | _ \<Rightarrow> map Failure (sent st))"

fun text_of :: "'x event \<Rightarrow> gostring" where
  "text_of (Emitted t) = Value t"
| "text_of (Discarded v) = v"
| "text_of (Failure t) = []"

definition recon :: "('x, 'a) step list \<Rightarrow> gostring" where
  "recon steps = concat (map text_of (concat (map events_of steps)))"

definition pos_of :: "gostring \<Rightarrow> pos" where
  "pos_of p = \<lparr>line = int (length (filter (\<lambda>r. r = 10) p)),
              col = int (length (takeWhile (\<lambda>r. r \<noteq> 10) (rev p))),
              pos = int (length p)\<rparr>"

text \<open>
  The end-of-source placeholders in the scan buffer. A \<open>Next\<close> that returns \<open>EOF\<close> appends
  one (the rune \<open>0\<close>), a \<open>Backup\<close> removes the last element of the buffer, which is a
  placeholder as long as there is one, and \<open>Ignore\<close>, \<open>Emit\<close> and \<open>EmitExtra\<close> empty the
  buffer. \<open>placeholders steps\<close> is their number after \<open>steps\<close>.
\<close>

definition reaches_Ignore :: "('x, 'a) call \<Rightarrow> bool" where
  "reaches_Ignore c =
     (case c of CallIgnore \<Rightarrow> True | CallEmit t \<Rightarrow> True | CallEmitExtra t extra \<Rightarrow> True
      | _ \<Rightarrow> False)"

definition placeholder_step :: "nat \<Rightarrow> ('x, 'a) step \<Rightarrow> nat" where
  "placeholder_step k st =
     (case step_call st of
        CallNext \<Rightarrow> if step_ret st = Some EOF then Suc k else k
      | CallBackup \<Rightarrow> k - 1
      | CallPeek \<Rightarrow> k
      | CallErrorf t s args \<Rightarrow> k
      | _ \<Rightarrow> 0)"

definition placeholders :: "('x, 'a) step list \<Rightarrow> nat" where
  "placeholders steps = foldl placeholder_step 0 steps"

text \<open>
  Three conditions on a run. \<open>no_placeholder_committed k steps\<close>: with \<open>k\<close> placeholders in
  the buffer at the start, no \<open>Ignore\<close>, \<open>Emit\<close> or \<open>EmitExtra\<close> of \<open>steps\<close> is called while the
  buffer holds a placeholder. \<open>backs_up_placeholders k steps\<close>: once the end of the source
  has been observed, \<open>Backup\<close> is called only while the buffer holds a placeholder, so that
  it takes back a \<open>Next\<close> that returned \<open>EOF\<close> and not a character. \<open>trims_one_unread steps\<close>:
  whenever \<open>bufreader.Ignore\<close> is reached (from \<open>Ignore\<close>, \<open>Emit\<close> or \<open>EmitExtra\<close>) while the
  reader can still deliver, its buffer is empty or exactly the last rune in it is unread;
  that rune is the one \<open>bufreader.Ignore\<close> keeps, with the reading position \<open>0\<close>.
\<close>

fun no_placeholder_committed :: "nat \<Rightarrow> ('x, 'a) step list \<Rightarrow> bool" where
  "no_placeholder_committed k [] = True"
| "no_placeholder_committed k (st # steps) =
     ((reaches_Ignore (step_call st) \<longrightarrow> k = 0)
      \<and> no_placeholder_committed (placeholder_step k st) steps)"

fun backs_up_placeholders :: "nat \<Rightarrow> ('x, 'a) step list \<Rightarrow> bool" where
  "backs_up_placeholders k [] = True"
| "backs_up_placeholders k (st # steps) =
     ((step_call st = CallBackup \<and> lex_eof (step_before st) \<longrightarrow> 0 < k)
      \<and> backs_up_placeholders (placeholder_step k st) steps)"

definition trim_one_unread :: "('x, 'a) step \<Rightarrow> bool" where
  "trim_one_unread st =
     (let br = lex_r (step_before st)
      in reaches_Ignore (step_call st) \<longrightarrow>
           br_err br \<noteq> None \<or> br_buf br = [] \<or> br_pos br = int (length (br_buf br)) - 1)"

definition trims_one_unread :: "('x, 'a) step list \<Rightarrow> bool" where
  "trims_one_unread steps = list_all trim_one_unread steps"

text \<open>
  \<open>unread lx\<close>: the characters the reader of \<open>lx\<close> still delivers, those it has buffered and
  not yet handed out again and then those of the source; none once a read has failed.
\<close>

definition unread :: "'x lexer \<Rightarrow> gostring" where
  "unread lx =
     (let br = lex_r lx
      in case br_err br of
           None \<Rightarrow> drop (nat (br_pos br)) (br_buf br) @ map int (src_runes (br_r br))
         | Some e \<Rightarrow> [])"

text \<open>
  \<open>consumed_span\<close>: the characters consumed via \<open>Next\<close> since the previous \<open>Emit\<close> or
  \<open>Ignore\<close>, minus those undone via \<open>Backup\<close>; a \<open>Next\<close> that returns \<open>EOF\<close> consumes no
  character. \<open>span_start\<close>: the position (\<open>Line()\<close>, \<open>Col()\<close>, \<open>Pos()\<close>) immediately after the
  previous \<open>Emit\<close> or \<open>Ignore\<close>, and the zero position before the first one.
\<close>

definition span_step :: "gostring \<Rightarrow> ('x, 'a) step \<Rightarrow> gostring" where
  "span_step acc st =
     (case step_call st of
        CallNext \<Rightarrow>
          (case step_ret st of
             Some r \<Rightarrow> if r = EOF then acc else acc @ [r]
           | None \<Rightarrow> acc)
      | CallBackup \<Rightarrow> butlast acc
      | CallPeek \<Rightarrow> acc
      | CallErrorf t s args \<Rightarrow> acc
      | _ \<Rightarrow> [])"

definition consumed_span :: "('x, 'a) step list \<Rightarrow> gostring" where
  "consumed_span steps = foldl span_step [] steps"

definition start_step :: "pos \<Rightarrow> ('x, 'a) step \<Rightarrow> pos" where
  "start_step acc st =
     (case step_call st of
        CallNext \<Rightarrow> acc
      | CallBackup \<Rightarrow> acc
      | CallPeek \<Rightarrow> acc
      | CallErrorf t s args \<Rightarrow> acc
      | _ \<Rightarrow> \<lparr>line = lexer_Line (step_after st), col = lexer_Col (step_after st),
              pos = lexer_Pos (step_after st)\<rparr>)"

definition span_start :: "('x, 'a) step list \<Rightarrow> pos" where
  "span_start steps = foldl start_step pos0 steps"

text \<open>
  \<open>no_sentinel\<close>: no \<open>Next\<close> and no \<open>Peek\<close> of the run has returned \<open>EOF\<close>.
\<close>

definition no_sentinel :: "('x, 'a) step list \<Rightarrow> bool" where
  "no_sentinel steps = (Some EOF \<notin> set (map step_ret steps))"

definition inv_span :: "('x, 'a) step list \<Rightarrow> 'x lexer \<Rightarrow> bool" where
  "inv_span steps lx =
     (lex_tokenPos lx = span_start steps
      \<and> (\<not> lex_eof lx \<longrightarrow> lex_value lx = consumed_span steps)
      \<and> (\<forall>x \<in> set (br_buf (lex_r lx)). 0 \<le> x))"

text \<open>
  For closed examples: \<open>plain\<close> is \<^verbatim>\<open>fmt.Sprintf\<close> on a format without verbs and no
  arguments; \<open>returns\<close> tells a normal return from a panic; \<open>final\<close> and \<open>trace\<close> are the
  engine and the steps a run ends with.
\<close>

definition plain :: "gostring \<Rightarrow> unit list \<Rightarrow> gostring" where
  "plain s args = s"

definition returns :: "panic + 'b \<Rightarrow> bool" where
  "returns res = (case res of Inl p \<Rightarrow> False | Inr y \<Rightarrow> True)"

definition final :: "panic + (('x, 'a) step list \<times> 'x lexer) \<Rightarrow> panic + 'x lexer" where
  "final res = map_sum id snd res"

definition trace :: "panic + (('x, 'a) step list \<times> 'x lexer) \<Rightarrow> ('x, 'a) step list" where
  "trace res = (case res of Inl p \<Rightarrow> [] | Inr (steps, lx) \<Rightarrow> steps)"

lemmas ghost_defs = returns_def final_def trace_def plain_def recon_def events_of_def sent_def
  consumed_span_def span_step_def span_start_def start_step_def pos_of_def
  no_sentinel_def

lemmas input_defs = reaches_Ignore_def placeholder_step_def placeholders_def
  trim_one_unread_def trims_one_unread_def unread_def

text \<open>
  The invariants. \<open>inv_pos\<close>: until \<open>Next\<close> has failed, the current position is that of
  the end of everything consumed so far, the token-start position is that of the end of
  what was committed, and the stack holds the position before each consumed character.
  \<open>inv_src\<close>: what was committed, the scan buffer without its \<open>k\<close> placeholders, and what
  the reader still holds make up the input; while the reader can still deliver, the scan
  buffer is the part of the reader's buffer that is handed out. \<open>inv_span\<close>: the
  token-start marker and the scan buffer are what the specification says they are.
  \<open>inv_reader\<close>: while the reader can still deliver, the scan buffer is the end of what the
  reader has handed out of its buffer, so that each \<open>Backup\<close> puts back the character it
  removes from the scan buffer.
\<close>

definition inv_pos :: "('x, 'a) step list \<Rightarrow> 'x lexer \<Rightarrow> bool" where
  "inv_pos steps lx =
     (lex_pos lx = pos_of (recon steps @ lex_value lx)
      \<and> lex_tokenPos lx = pos_of (recon steps)
      \<and> lex_prevPos lx = map pos_of (butlast (prefixes (recon steps @ lex_value lx))))"

definition inv_src :: "gostring \<Rightarrow> nat \<Rightarrow> ('x, 'a) step list \<Rightarrow> 'x lexer \<Rightarrow> bool" where
  "inv_src s k steps lx =
     (let br = lex_r lx; buf = br_buf br; bpos = br_pos br;
          rest = map int (src_runes (br_r br)); R = recon steps; v = lex_value lx
      in (\<forall>x \<in> set buf. 0 \<le> x) \<and>
         (case br_err br of
            None \<Rightarrow>
              \<not> lex_eof lx \<and> k = 0 \<and> 0 \<le> bpos \<and> bpos \<le> int (length buf)
              \<and> v = take (nat bpos) buf \<and> R @ buf @ rest = s
          | Some e \<Rightarrow>
              lex_eof lx \<and> k \<le> length v \<and> drop (length v - k) v = replicate k 0
              \<and> R @ take (length v - k) v = s))"

definition inv_reader :: "'x lexer \<Rightarrow> bool" where
  "inv_reader lx =
     (let br = lex_r lx
      in case br_err br of
           None \<Rightarrow>
             0 \<le> br_pos br \<and> br_pos br \<le> int (length (br_buf br))
             \<and> suffix (lex_value lx) (take (nat (br_pos br)) (br_buf br))
         | Some e \<Rightarrow> lex_eof lx)"

section \<open>Facts about single operations\<close>

lemma exec_snoc:
  "exec sprintf (cs @ [c]) lx =
     (case exec sprintf cs lx of
        Inl p \<Rightarrow> Inl p
      | Inr (steps, lx1) \<Rightarrow>
          (case call1 sprintf c lx1 of
             Inl p \<Rightarrow> Inl p
           | Inr (ret, lx2) \<Rightarrow>
               Inr (steps @ [\<lparr>step_call = c, step_ret = ret, step_before = lx1, step_after = lx2\<rparr>],
                    lx2)))"
  by (induction cs arbitrary: lx) (auto split: sum.splits)

lemma placeholders_snoc: "placeholders (steps @ [st]) = placeholder_step (placeholders steps) st"
  by (simp add: placeholders_def)

lemma no_placeholder_committed_snoc:
  "no_placeholder_committed k (steps @ [st]) =
     (no_placeholder_committed k steps
      \<and> (reaches_Ignore (step_call st) \<longrightarrow> foldl placeholder_step k steps = 0))"
  by (induction steps arbitrary: k) auto

lemma backs_up_placeholders_snoc:
  "backs_up_placeholders k (steps @ [st]) =
     (backs_up_placeholders k steps
      \<and> (step_call st = CallBackup \<and> lex_eof (step_before st) \<longrightarrow>
           0 < foldl placeholder_step k steps))"
  by (induction steps arbitrary: k) auto

lemma Advance_pos_of: "Advance r (pos_of p) = pos_of (p @ [r])"
  by (simp add: Advance_def pos_of_def Let_def)

lemma recon_snoc: "recon (steps @ [st]) = recon steps @ concat (map text_of (events_of st))"
  by (simp add: recon_def)

subsection \<open>Positions along a run\<close>

lemma Next_ok:
  assumes "Next sprintf lx = Inr (r, lx')" "\<not> lex_eof lx'"
  shows "lex_pos lx' = Advance r (lex_pos lx) \<and> lex_prevPos lx' = lex_prevPos lx @ [lex_pos lx]
    \<and> lex_value lx' = lex_value lx @ [r] \<and> lex_tokens lx' = lex_tokens lx
    \<and> lex_tokenPos lx' = lex_tokenPos lx"
  using assms
  by (auto simp: Next_def CopyTo_def pos0_def Let_def split: sum.splits option.splits)

lemma Backup_ok:
  assumes "Backup lx = Inr lx'"
  shows "lex_value lx \<noteq> [] \<and> lex_prevPos lx \<noteq> [] \<and> lex_value lx' = butlast (lex_value lx)
    \<and> lex_pos lx' = last (lex_prevPos lx) \<and> lex_prevPos lx' = butlast (lex_prevPos lx)
    \<and> lex_tokens lx' = lex_tokens lx \<and> lex_tokenPos lx' = lex_tokenPos lx
    \<and> lex_eof lx' = lex_eof lx"
  using assms
  by (auto simp: Backup_def CopyTo_def Let_def butlast_conv_take last_conv_nth split: if_splits)

lemma Ignore_ok:
  "lex_value (Ignore lx) = [] \<and> lex_tokenPos (Ignore lx) = lex_pos lx
    \<and> lex_pos (Ignore lx) = lex_pos lx \<and> lex_prevPos (Ignore lx) = lex_prevPos lx
    \<and> lex_tokens (Ignore lx) = lex_tokens lx \<and> lex_eof (Ignore lx) = lex_eof lx"
  by (simp add: Ignore_def CopyTo_def Let_def)

lemma EmitExtra_ok:
  "lex_value (EmitExtra t extra lx) = [] \<and> lex_tokenPos (EmitExtra t extra lx) = lex_pos lx
    \<and> lex_pos (EmitExtra t extra lx) = lex_pos lx
    \<and> lex_prevPos (EmitExtra t extra lx) = lex_prevPos lx
    \<and> lex_tokens (EmitExtra t extra lx) = lex_tokens lx @
        [\<lparr>Type = t, Value = lex_value lx, Line = line (lex_tokenPos lx),
          Col = col (lex_tokenPos lx), Pos = pos (lex_tokenPos lx), Extra = extra\<rparr>]
    \<and> lex_eof (EmitExtra t extra lx) = lex_eof lx"
  by (simp add: EmitExtra_def Ignore_def CopyTo_def lexer_Value_def Let_def)

lemma Errorf_ok:
  "snd (Errorf sprintf t s args lx) =
     lx\<lparr>lex_tokens := lex_tokens lx @
       [\<lparr>Type = t, Value = sprintf s args, Line = line (lex_pos lx), Col = col (lex_pos lx),
         Pos = pos (lex_pos lx), Extra = None\<rparr>]\<rparr>"
  by (simp add: Errorf_def lexer_Line_def lexer_Col_def lexer_Pos_def Let_def)

lemma call1_eof_mono:
  assumes "call1 sprintf c lx = Inr (ret, lx')" "lex_eof lx"
  shows "lex_eof lx'"
  using assms
  by (cases c)
    (auto simp: Next_def Peek_def Backup_def Ignore_def Emit_def EmitExtra_def Errorf_def Let_def
      split: sum.splits option.splits if_splits)

lemma butlast_prefixes_snoc: "butlast (prefixes (xs @ ys @ [y])) = prefixes (xs @ ys)"
  using prefixes_snoc [of "xs @ ys" y] by simp

lemma map_butlast_prefixes_snoc:
  "map f (butlast (prefixes (xs @ ys @ [y]))) = map f (butlast (prefixes (xs @ ys))) @ [f (xs @ ys)]"
proof -
  have "prefixes (xs @ ys) = butlast (prefixes (xs @ ys)) @ [xs @ ys]"
    using append_butlast_last_id [of "prefixes (xs @ ys)"] by simp
  then have "map f (prefixes (xs @ ys)) = map f (butlast (prefixes (xs @ ys))) @ [f (xs @ ys)]"
    by (metis list.simps(8,9) map_append)
  then show ?thesis
    by (simp only: butlast_prefixes_snoc)
qed

lemma last_map_prefixes: "last (map f (prefixes xs)) = f xs"
  by (simp add: last_map)

lemma inv_pos_Next:
  assumes "inv_pos steps lx" "Next sprintf lx = Inr (r, lx')" "\<not> lex_eof lx'"
  shows "inv_pos (steps @ [\<lparr>step_call = CallNext, step_ret = ret, step_before = lx, step_after = lx'\<rparr>]) lx'"
  using assms(1) Next_ok [OF assms(2,3)]
  by (simp add: inv_pos_def recon_snoc events_of_def sent_def Advance_pos_of
      map_butlast_prefixes_snoc)

lemma inv_pos_Backup:
  assumes "inv_pos steps lx" "Backup lx = Inr lx'"
  shows "inv_pos (steps @ [\<lparr>step_call = CallBackup, step_ret = ret, step_before = lx, step_after = lx'\<rparr>]) lx'"
proof -
  from Backup_ok [OF assms(2)] obtain w x where v: "lex_value lx = w @ [x]"
    by (metis append_butlast_last_id)
  show ?thesis
    using assms(1) Backup_ok [OF assms(2)]
    by (simp add: inv_pos_def recon_snoc events_of_def v butlast_prefixes_snoc
        last_map_prefixes map_butlast [symmetric])
qed

lemma Peek_ok:
  assumes "Peek sprintf lx = Inr (r, lx')" "\<not> lex_eof lx'"
  shows "lex_pos lx' = lex_pos lx \<and> lex_prevPos lx' = lex_prevPos lx
    \<and> lex_value lx' = lex_value lx \<and> lex_tokens lx' = lex_tokens lx
    \<and> lex_tokenPos lx' = lex_tokenPos lx"
proof -
  from assms(1) obtain lx1 where n: "Next sprintf lx = Inr (r, lx1)" and b: "Backup lx1 = Inr lx'"
    by (auto simp: Peek_def split: sum.splits)
  from Backup_ok [OF b] assms(2) have "\<not> lex_eof lx1" by simp
  from Next_ok [OF n this] Backup_ok [OF b] show ?thesis by simp
qed

lemma inv_pos_step:
  assumes "inv_pos steps lx" "call1 sprintf c lx = Inr (ret, lx')" "\<not> lex_eof lx'"
  shows "inv_pos (steps @ [\<lparr>step_call = c, step_ret = ret, step_before = lx, step_after = lx'\<rparr>]) lx'"
proof (cases c)
  case CallNext
  with assms show ?thesis by (auto split: sum.splits intro: inv_pos_Next)
next
  case CallPeek
  with assms(2) obtain r where p: "Peek sprintf lx = Inr (r, lx')"
    by (auto split: sum.splits)
  from assms(1) Peek_ok [OF p assms(3)] show ?thesis
    by (simp add: CallPeek inv_pos_def recon_snoc events_of_def sent_def)
next
  case CallBackup
  with assms show ?thesis by (auto split: sum.splits intro: inv_pos_Backup)
next
  case CallIgnore
  with assms(2) have "lx' = Ignore lx" by simp
  with assms(1) Ignore_ok [of lx] show ?thesis
    by (simp add: CallIgnore inv_pos_def recon_snoc events_of_def lexer_Value_def)
next
  case (CallEmit t)
  with assms(2) have "lx' = EmitExtra t None lx" by (simp add: Emit_def)
  with assms(1) EmitExtra_ok [of t None lx] show ?thesis
    by (simp add: CallEmit inv_pos_def recon_snoc events_of_def sent_def)
next
  case (CallEmitExtra t extra)
  with assms(2) have "lx' = EmitExtra t extra lx" by simp
  with assms(1) EmitExtra_ok [of t extra lx] show ?thesis
    by (simp add: CallEmitExtra inv_pos_def recon_snoc events_of_def sent_def)
next
  case (CallErrorf t s args)
  with assms(2) have "lx' = snd (Errorf sprintf t s args lx :: unit option \<times> 'a lexer)" by simp
  with assms(1) show ?thesis
    by (simp add: CallErrorf Errorf_ok inv_pos_def recon_snoc events_of_def sent_def)
qed

lemma inv_pos_init: "inv_pos [] (NewLexer rd)"
  by (simp add: inv_pos_def NewLexer_def recon_def pos_of_def pos0_def)

lemma exec_eof_mono:
  "exec sprintf cs lx = Inr (steps, lx') \<Longrightarrow> lex_eof lx \<Longrightarrow> lex_eof lx'"
proof (induction cs arbitrary: lx steps)
  case Nil
  then show ?case by simp
next
  case (Cons c cs)
  from Cons.prems(1) obtain ret lx1 steps1 where
    c: "call1 sprintf c lx = Inr (ret, lx1)" and e: "exec sprintf cs lx1 = Inr (steps1, lx')"
    by (auto split: sum.splits)
  from call1_eof_mono [OF c Cons.prems(2)] Cons.IH [OF e] show ?case by simp
qed

lemma inv_pos_exec:
  "exec sprintf cs (NewLexer rd) = Inr (steps, lx) \<Longrightarrow> \<not> lex_eof lx \<Longrightarrow> inv_pos steps lx"
proof (induction cs arbitrary: steps lx rule: rev_induct)
  case Nil
  then show ?case using inv_pos_init by auto
next
  case (snoc c cs)
  from snoc.prems(1) obtain steps1 lx1 ret where
    e: "exec sprintf cs (NewLexer rd) = Inr (steps1, lx1)"
    and c: "call1 sprintf c lx1 = Inr (ret, lx)"
    and s: "steps = steps1 @ [\<lparr>step_call = c, step_ret = ret, step_before = lx1, step_after = lx\<rparr>]"
    by (auto simp: exec_snoc split: sum.splits)
  from c snoc.prems(2) have "\<not> lex_eof lx1"
    using call1_eof_mono by blast
  from snoc.IH [OF e this] c snoc.prems(2) show ?case
    unfolding s by (rule inv_pos_step)
qed

lemma prevPos_empty_value_empty:
  assumes "inv_pos steps lx" "lex_prevPos lx = []"
  shows "lex_value lx = []"
proof (rule ccontr)
  assume "lex_value lx \<noteq> []"
  then obtain w x where "lex_value lx = w @ [x]"
    by (metis append_butlast_last_id)
  with assms show False
    by (simp add: inv_pos_def butlast_prefixes_snoc)
qed

subsection \<open>The input along a run\<close>

lemma text_of_Failure: "concat (map text_of (map Failure ts)) = []"
  by (induction ts) auto

lemma text_of_Emitted: "concat (map text_of (map Emitted ts)) = concat (map Value ts)"
  by (induction ts) auto

lemma recon_Next:
  "recon (steps @ [\<lparr>step_call = CallNext, step_ret = ret, step_before = lx, step_after = lx'\<rparr>])
    = recon steps"
  by (simp add: recon_snoc events_of_def text_of_Failure)

lemma recon_Peek:
  "recon (steps @ [\<lparr>step_call = CallPeek, step_ret = ret, step_before = lx, step_after = lx'\<rparr>])
    = recon steps"
  by (simp add: recon_snoc events_of_def text_of_Failure)

lemma recon_Backup:
  "recon (steps @ [\<lparr>step_call = CallBackup, step_ret = ret, step_before = lx, step_after = lx'\<rparr>])
    = recon steps"
  by (simp add: recon_snoc events_of_def)

lemma recon_Errorf:
  "recon (steps @ [\<lparr>step_call = CallErrorf t s args, step_ret = ret, step_before = lx,
      step_after = lx'\<rparr>]) = recon steps"
  by (simp add: recon_snoc events_of_def text_of_Failure)

lemma recon_Ignore:
  "recon (steps @ [\<lparr>step_call = CallIgnore, step_ret = ret, step_before = lx, step_after = lx'\<rparr>])
    = recon steps @ lex_value lx"
  by (simp add: recon_snoc events_of_def lexer_Value_def)

lemma recon_EmitExtra:
  "recon (steps @ [\<lparr>step_call = CallEmitExtra t extra, step_ret = ret, step_before = lx,
      step_after = EmitExtra t extra lx\<rparr>]) = recon steps @ lex_value lx"
  by (simp add: recon_snoc events_of_def sent_def text_of_Emitted EmitExtra_ok)

lemma recon_Emit:
  "recon (steps @ [\<lparr>step_call = CallEmit t, step_ret = ret, step_before = lx,
      step_after = Emit t lx\<rparr>]) = recon steps @ lex_value lx"
  by (simp add: recon_snoc events_of_def sent_def text_of_Emitted EmitExtra_ok Emit_def)

lemma nat_int_length_pred: "nat (int (length xs) - 1) = length xs - 1"
  by (cases xs) simp_all

lemma Next_elims:
  assumes "Next sprintf lx = Inr (r, lx')"
  obtains
    (fail) e where "br_err (lex_r lx') = Some e" "r = EOF" "lex_value lx' = lex_value lx @ [0]"
      "br_buf (lex_r lx') = br_buf (lex_r lx)" "lex_eof lx'"
      "br_err (lex_r lx) = None \<Longrightarrow>
         int (length (br_buf (lex_r lx))) \<le> br_pos (lex_r lx) \<and> src_runes (br_r (lex_r lx)) = []"
  | (buffered) "br_err (lex_r lx) = None" "0 \<le> br_pos (lex_r lx)"
      "br_pos (lex_r lx) < int (length (br_buf (lex_r lx)))"
      "r = br_buf (lex_r lx) ! nat (br_pos (lex_r lx))"
      "lex_r lx' = (lex_r lx)\<lparr>br_pos := br_pos (lex_r lx) + 1\<rparr>"
      "lex_value lx' = lex_value lx @ [r]" "lex_eof lx' = lex_eof lx"
  | (source) c cs where "br_err (lex_r lx) = None"
      "int (length (br_buf (lex_r lx))) \<le> br_pos (lex_r lx)"
      "src_runes (br_r (lex_r lx)) = c # cs" "r = int c"
      "br_err (lex_r lx') = None" "br_buf (lex_r lx') = br_buf (lex_r lx) @ [int c]"
      "br_pos (lex_r lx') = int (length (br_buf (lex_r lx))) + 1"
      "src_runes (br_r (lex_r lx')) = cs"
      "lex_value lx' = lex_value lx @ [r]" "lex_eof lx' = lex_eof lx"
proof (cases "br_err (lex_r lx)")
  case (Some e)
  with assms fail [of e] show ?thesis
    by (auto simp: Next_def br_ReadRune_def Errorf_def Let_def split: if_splits)
next
  case None
  show ?thesis
  proof (cases "br_pos (lex_r lx) < int (length (br_buf (lex_r lx)))")
    case True
    with None assms buffered show ?thesis
      by (auto simp: Next_def br_ReadRune_def Let_def split: if_splits)
  next
    case False
    show ?thesis
    proof (cases "src_runes (br_r (lex_r lx))")
      case Nil
      with None False assms fail [of "src_err (br_r (lex_r lx))"] show ?thesis
        by (auto simp: Next_def br_ReadRune_def bufio_ReadRune_def Errorf_def Let_def
            split: if_splits)
    next
      case (Cons c cs)
      with None False assms source [of c cs] show ?thesis
        by (auto simp: Next_def br_ReadRune_def bufio_ReadRune_def Let_def)
    qed
  qed
qed

lemma inv_src_Next:
  assumes "inv_src s k steps lx" "Next sprintf lx = Inr (r, lx')"
  shows "inv_src s (if r = EOF then Suc k else k)
    (steps @ [\<lparr>step_call = CallNext, step_ret = Some r, step_before = lx, step_after = lx'\<rparr>]) lx'"
  using assms(2)
proof (cases rule: Next_elims)
  case (fail e)
  show ?thesis
  proof (cases "br_err (lex_r lx)")
    case None
    with fail(6) have "int (length (br_buf (lex_r lx))) \<le> br_pos (lex_r lx)"
      "src_runes (br_r (lex_r lx)) = []"
      by simp_all
    with None assms(1) have "lex_value lx = br_buf (lex_r lx)" "recon steps @ lex_value lx = s"
      "k = 0"
      by (auto simp: inv_src_def Let_def)
    with fail assms(1) show ?thesis
      by (simp add: inv_src_def recon_Next Let_def)
  next
    case (Some e')
    with assms(1) have k: "k \<le> length (lex_value lx)"
      "drop (length (lex_value lx) - k) (lex_value lx) = replicate k 0"
      "recon steps @ take (length (lex_value lx) - k) (lex_value lx) = s"
      by (auto simp: inv_src_def Let_def)
    from k(1) have "Suc (length (lex_value lx)) - Suc k = length (lex_value lx) - k"
      by simp
    with k fail assms(1) show ?thesis
      by (simp add: inv_src_def recon_Next Let_def replicate_append_same)
  qed
next
  case buffered
  with assms(1) have i: "\<not> lex_eof lx" "k = 0" "lex_value lx = take (nat (br_pos (lex_r lx))) (br_buf (lex_r lx))"
    "recon steps @ br_buf (lex_r lx) @ map int (src_runes (br_r (lex_r lx))) = s"
    "\<forall>x \<in> set (br_buf (lex_r lx)). 0 \<le> x"
    by (auto simp: inv_src_def Let_def)
  from buffered have n: "nat (br_pos (lex_r lx)) < length (br_buf (lex_r lx))"
    "nat (br_pos (lex_r lx) + 1) = Suc (nat (br_pos (lex_r lx)))"
    by simp_all
  with i(5) buffered(4) have "0 \<le> r" by simp
  then have "r \<noteq> EOF" by (simp add: EOF_def)
  with buffered i n show ?thesis
    by (simp add: inv_src_def recon_Next Let_def take_Suc_conv_app_nth)
next
  case (source c cs)
  with assms(1) have i: "\<not> lex_eof lx" "k = 0"
    "br_pos (lex_r lx) = int (length (br_buf (lex_r lx)))"
    "lex_value lx = br_buf (lex_r lx)"
    "recon steps @ br_buf (lex_r lx) @ map int (src_runes (br_r (lex_r lx))) = s"
    "\<forall>x \<in> set (br_buf (lex_r lx)). 0 \<le> x"
    by (auto simp: inv_src_def Let_def)
  from source have "r \<noteq> EOF" by (simp add: EOF_def)
  with source i show ?thesis
    by (simp add: inv_src_def recon_Next Let_def)
qed

lemma inv_src_recon:
  "recon steps1 = recon steps2 \<Longrightarrow> inv_src s k steps1 lx = inv_src s k steps2 lx"
  by (simp add: inv_src_def)

lemma Backup_reader:
  assumes "Backup lx = Inr lx'"
  shows "lex_r lx' = (lex_r lx)\<lparr>br_pos := br_pos (lex_r lx) - 1\<rparr>"
  using assms by (auto simp: Backup_def br_UnreadRune_def Let_def split: if_splits)

lemma inv_src_Backup:
  assumes "inv_src s k steps lx" "Backup lx = Inr lx'" "lex_eof lx \<longrightarrow> 0 < k"
  shows "inv_src s (k - 1)
    (steps @ [\<lparr>step_call = CallBackup, step_ret = ret, step_before = lx, step_after = lx'\<rparr>]) lx'"
proof (cases "br_err (lex_r lx)")
  case None
  with assms(1) have i: "\<not> lex_eof lx" "k = 0" "0 \<le> br_pos (lex_r lx)"
    "br_pos (lex_r lx) \<le> int (length (br_buf (lex_r lx)))"
    "lex_value lx = take (nat (br_pos (lex_r lx))) (br_buf (lex_r lx))"
    "recon steps @ br_buf (lex_r lx) @ map int (src_runes (br_r (lex_r lx))) = s"
    "\<forall>x \<in> set (br_buf (lex_r lx)). 0 \<le> x"
    by (auto simp: inv_src_def Let_def)
  from Backup_ok [OF assms(2)] i(5) have p: "0 < br_pos (lex_r lx)"
    by (cases "0 < br_pos (lex_r lx)") auto
  with i(4) have "nat (br_pos (lex_r lx)) \<le> length (br_buf (lex_r lx))"
    "nat (br_pos (lex_r lx) - 1) = nat (br_pos (lex_r lx)) - 1"
    by simp_all
  with None i p Backup_ok [OF assms(2)] Backup_reader [OF assms(2)] show ?thesis
    by (simp add: inv_src_def recon_Backup Let_def butlast_take)
next
  case (Some e)
  with assms(1) have k: "lex_eof lx" "k \<le> length (lex_value lx)"
    "drop (length (lex_value lx) - k) (lex_value lx) = replicate k 0"
    "recon steps @ take (length (lex_value lx) - k) (lex_value lx) = s"
    "\<forall>x \<in> set (br_buf (lex_r lx)). 0 \<le> x"
    by (auto simp: inv_src_def Let_def)
  with assms(3) have p: "0 < k" by simp
  with k(2) have l: "length (lex_value lx) - 1 - (k - 1) = length (lex_value lx) - k"
    "length (lex_value lx) - k < length (lex_value lx)"
    by simp_all
  have "butlast (replicate k (0::int)) = replicate (k - 1) 0"
    by (cases k) (simp_all add: replicate_append_same [symmetric])
  with k(3) have "drop (length (lex_value lx) - k) (butlast (lex_value lx)) = replicate (k - 1) 0"
    by (metis butlast_drop)
  with Some k p l Backup_ok [OF assms(2)] Backup_reader [OF assms(2)] show ?thesis
    by (simp add: inv_src_def recon_Backup Let_def take_butlast)
qed

lemma inv_src_Peek:
  assumes "inv_src s k steps lx" "Peek sprintf lx = Inr (r, lx')"
  shows "inv_src s k
    (steps @ [\<lparr>step_call = CallPeek, step_ret = ret, step_before = lx, step_after = lx'\<rparr>]) lx'"
proof -
  from assms(2) obtain lx1 where n: "Next sprintf lx = Inr (r, lx1)" and b: "Backup lx1 = Inr lx'"
    by (auto simp: Peek_def split: sum.splits)
  let ?n = "\<lparr>step_call = CallNext, step_ret = Some r, step_before = lx, step_after = lx1\<rparr>"
  let ?b = "\<lparr>step_call = CallBackup, step_ret = None, step_before = lx1, step_after = lx'\<rparr>"
  let ?k = "if r = EOF then Suc k else k"
  from inv_src_Next [OF assms(1) n] have i1: "inv_src s ?k (steps @ [?n]) lx1" .
  have e: "lex_eof lx1 \<longrightarrow> 0 < ?k"
  proof (cases "r = EOF")
    case True
    then show ?thesis by simp
  next
    case False
    from n have "br_err (lex_r lx1) = None"
      by (cases rule: Next_elims) (use False in simp_all)
    with i1 show ?thesis
      by (simp add: inv_src_def Let_def)
  qed
  have k: "?k - 1 = k"
  proof (cases "r = EOF")
    case True
    then show ?thesis by simp
  next
    case False
    from n have "br_err (lex_r lx1) = None"
      by (cases rule: Next_elims) (use False in simp_all)
    with i1 False show ?thesis
      by (simp add: inv_src_def Let_def)
  qed
  from inv_src_Backup [OF i1 b e, of None] k
  have i: "inv_src s k ((steps @ [?n]) @ [?b]) lx'"
    by simp
  have "recon ((steps @ [?n]) @ [?b]) =
      recon (steps @ [\<lparr>step_call = CallPeek, step_ret = ret, step_before = lx, step_after = lx'\<rparr>])"
    by (simp only: recon_Backup recon_Next recon_Peek)
  from inv_src_recon [OF this] i show ?thesis
    by simp
qed

lemma br_Ignore_ok:
  "br_err (br_Ignore br) = br_err br \<and> br_r (br_Ignore br) = br_r br \<and> br_pos (br_Ignore br) = 0
    \<and> br_buf (br_Ignore br) = (if br_buf br = [] then [] else [last (br_buf br)])"
proof (cases "br_buf br = []")
  case True
  then show ?thesis by (simp add: br_Ignore_def Let_def)
next
  case False
  then obtain ys y where "br_buf br = ys @ [y]"
    by (metis append_butlast_last_id)
  then show ?thesis by (simp add: br_Ignore_def Let_def)
qed

lemma Ignore_reader: "lex_r (Ignore lx) = br_Ignore (lex_r lx)"
  by (simp add: Ignore_def Let_def)

lemma EmitExtra_reader: "lex_r (EmitExtra t extra lx) = br_Ignore (lex_r lx)"
  by (simp add: EmitExtra_def Ignore_def Let_def)

lemma inv_src_commit:
  assumes "inv_src s 0 steps lx" "lex_r lx' = br_Ignore (lex_r lx)" "lex_value lx' = []"
    "lex_eof lx' = lex_eof lx" "recon steps' = recon steps @ lex_value lx"
    "br_err (lex_r lx) \<noteq> None \<or> br_buf (lex_r lx) = []
      \<or> br_pos (lex_r lx) = int (length (br_buf (lex_r lx))) - 1"
  shows "inv_src s 0 steps' lx'"
proof (cases "br_err (lex_r lx)")
  case None
  with assms(1) have i: "\<not> lex_eof lx" "0 \<le> br_pos (lex_r lx)"
    "br_pos (lex_r lx) \<le> int (length (br_buf (lex_r lx)))"
    "lex_value lx = take (nat (br_pos (lex_r lx))) (br_buf (lex_r lx))"
    "recon steps @ br_buf (lex_r lx) @ map int (src_runes (br_r (lex_r lx))) = s"
    "\<forall>x \<in> set (br_buf (lex_r lx)). 0 \<le> x"
    by (auto simp: inv_src_def Let_def)
  show ?thesis
  proof (cases "br_buf (lex_r lx) = []")
    case True
    with None i assms(2-5) br_Ignore_ok [of "lex_r lx"] show ?thesis
      by (simp add: inv_src_def Let_def)
  next
    case False
    with None assms(6) have p: "br_pos (lex_r lx) = int (length (br_buf (lex_r lx))) - 1"
      by simp
    with False i(4) have v: "lex_value lx = butlast (br_buf (lex_r lx))"
      by (simp add: nat_int_length_pred butlast_conv_take)
    from False i(6) have l: "0 \<le> last (br_buf (lex_r lx))" by simp
    from False have "butlast (br_buf (lex_r lx)) @ [last (br_buf (lex_r lx))] = br_buf (lex_r lx)"
      by simp
    with i(5) have "recon steps @ butlast (br_buf (lex_r lx)) @ last (br_buf (lex_r lx)) #
        map int (src_runes (br_r (lex_r lx))) = s"
      by (metis append.assoc append_Cons append_Nil)
    with None False i v l assms(2-5) br_Ignore_ok [of "lex_r lx"] show ?thesis
      by (simp add: inv_src_def Let_def)
  qed
next
  case (Some e)
  from assms(1) have nn: "\<forall>x \<in> set (br_buf (lex_r lx)). 0 \<le> x"
    by (simp add: inv_src_def Let_def)
  then have "br_buf (lex_r lx) \<noteq> [] \<Longrightarrow> 0 \<le> last (br_buf (lex_r lx))" by simp
  with Some assms(1-5) br_Ignore_ok [of "lex_r lx"] show ?thesis
    by (simp add: inv_src_def Let_def)
qed

lemma inv_src_step:
  fixes lx :: "'x lexer" and c :: "('x, 'a) call"
  assumes "inv_src s k steps lx" "call1 sprintf c lx = Inr (ret, lx')"
    "reaches_Ignore c \<longrightarrow> k = 0" "c = CallBackup \<and> lex_eof lx \<longrightarrow> 0 < k"
    "trim_one_unread \<lparr>step_call = c, step_ret = ret, step_before = lx, step_after = lx'\<rparr>"
  shows "inv_src s
    (placeholder_step k \<lparr>step_call = c, step_ret = ret, step_before = lx, step_after = lx'\<rparr>)
    (steps @ [\<lparr>step_call = c, step_ret = ret, step_before = lx, step_after = lx'\<rparr>]) lx'"
proof (cases c)
  case CallNext
  with assms(2) obtain r where n: "Next sprintf lx = Inr (r, lx')" and r: "ret = Some r"
    by (auto split: sum.splits)
  from inv_src_Next [OF assms(1) n] show ?thesis
    by (simp add: CallNext r placeholder_step_def)
next
  case CallPeek
  with assms(2) obtain r where n: "Peek sprintf lx = Inr (r, lx')"
    by (auto split: sum.splits)
  from inv_src_Peek [OF assms(1) n] show ?thesis
    by (simp add: CallPeek placeholder_step_def)
next
  case CallBackup
  with assms(2) have b: "Backup lx = Inr lx'"
    by (auto split: sum.splits)
  from assms(4) CallBackup have "lex_eof lx \<longrightarrow> 0 < k" by simp
  from inv_src_Backup [OF assms(1) b this] show ?thesis
    by (simp add: CallBackup placeholder_step_def)
next
  case CallIgnore
  with assms(2) have l: "lx' = Ignore lx" by simp
  from assms(3) CallIgnore have k: "k = 0" by (simp add: reaches_Ignore_def)
  from assms(5) CallIgnore have t: "br_err (lex_r lx) \<noteq> None \<or> br_buf (lex_r lx) = []
      \<or> br_pos (lex_r lx) = int (length (br_buf (lex_r lx))) - 1"
    by (simp add: trim_one_unread_def reaches_Ignore_def Let_def)
  have "inv_src s 0
    (steps @ [\<lparr>step_call = CallIgnore, step_ret = ret, step_before = lx, step_after = lx'\<rparr>]) lx'"
    by (rule inv_src_commit [OF assms(1) [unfolded k] _ _ _ _ t])
      (simp_all add: l Ignore_reader Ignore_ok recon_Ignore)
  then show ?thesis
    by (simp add: CallIgnore placeholder_step_def)
next
  case (CallEmit t)
  with assms(2) have l: "lx' = Emit t lx" by simp
  from assms(3) CallEmit have k: "k = 0" by (simp add: reaches_Ignore_def)
  from assms(5) CallEmit have tr: "br_err (lex_r lx) \<noteq> None \<or> br_buf (lex_r lx) = []
      \<or> br_pos (lex_r lx) = int (length (br_buf (lex_r lx))) - 1"
    by (simp add: trim_one_unread_def reaches_Ignore_def Let_def)
  have "inv_src s 0
    (steps @ [\<lparr>step_call = CallEmit t, step_ret = ret, step_before = lx, step_after = lx'\<rparr>]) lx'"
    by (rule inv_src_commit [OF assms(1) [unfolded k] _ _ _ _ tr])
      (simp_all add: l Emit_def EmitExtra_reader EmitExtra_ok recon_Emit [unfolded Emit_def])
  then show ?thesis
    by (simp add: CallEmit placeholder_step_def)
next
  case (CallEmitExtra t extra)
  with assms(2) have l: "lx' = EmitExtra t extra lx" by simp
  from assms(3) CallEmitExtra have k: "k = 0" by (simp add: reaches_Ignore_def)
  from assms(5) CallEmitExtra have tr: "br_err (lex_r lx) \<noteq> None \<or> br_buf (lex_r lx) = []
      \<or> br_pos (lex_r lx) = int (length (br_buf (lex_r lx))) - 1"
    by (simp add: trim_one_unread_def reaches_Ignore_def Let_def)
  have "inv_src s 0
    (steps @ [\<lparr>step_call = CallEmitExtra t extra, step_ret = ret, step_before = lx,
        step_after = lx'\<rparr>]) lx'"
    by (rule inv_src_commit [OF assms(1) [unfolded k] _ _ _ _ tr])
      (simp_all add: l EmitExtra_reader EmitExtra_ok recon_EmitExtra)
  then show ?thesis
    by (simp add: CallEmitExtra placeholder_step_def)
next
  case (CallErrorf t fm args)
  with assms(2) have l: "lx' = snd (Errorf sprintf t fm args lx :: unit option \<times> 'x lexer)" by simp
  from assms(1) show ?thesis
    by (cases "br_err (lex_r lx)")
      (simp_all add: CallErrorf l Errorf_ok inv_src_def recon_Errorf Let_def placeholder_step_def)
qed

lemma inv_src_init: "inv_src (map int (src_runes rd)) 0 [] (NewLexer rd)"
  by (simp add: inv_src_def NewLexer_def newbufreader_def recon_def Let_def)

lemma inv_src_exec:
  "exec sprintf cs (NewLexer rd) = Inr (steps, lx) \<Longrightarrow> no_placeholder_committed 0 steps
    \<Longrightarrow> backs_up_placeholders 0 steps \<Longrightarrow> trims_one_unread steps
    \<Longrightarrow> inv_src (map int (src_runes rd)) (placeholders steps) steps lx"
proof (induction cs arbitrary: steps lx rule: rev_induct)
  case Nil
  then show ?case using inv_src_init by (auto simp: placeholders_def)
next
  case (snoc c cs)
  from snoc.prems(1) obtain steps1 lx1 ret where
    e: "exec sprintf cs (NewLexer rd) = Inr (steps1, lx1)"
    and c: "call1 sprintf c lx1 = Inr (ret, lx)"
    and s: "steps = steps1 @ [\<lparr>step_call = c, step_ret = ret, step_before = lx1, step_after = lx\<rparr>]"
    by (auto simp: exec_snoc split: sum.splits)
  let ?st = "\<lparr>step_call = c, step_ret = ret, step_before = lx1, step_after = lx\<rparr>"
  from snoc.prems(2) have n1: "no_placeholder_committed 0 steps1"
    and n2: "reaches_Ignore c \<longrightarrow> placeholders steps1 = 0"
    by (simp_all add: s no_placeholder_committed_snoc placeholders_def)
  from snoc.prems(3) have b1: "backs_up_placeholders 0 steps1"
    and b2: "c = CallBackup \<and> lex_eof lx1 \<longrightarrow> 0 < placeholders steps1"
    by (simp_all add: s backs_up_placeholders_snoc placeholders_def)
  from snoc.prems(4) have t1: "trims_one_unread steps1" and t2: "trim_one_unread ?st"
    by (simp_all add: s trims_one_unread_def)
  from inv_src_step [OF snoc.IH [OF e n1 b1 t1] c n2 b2 t2] show ?case
    by (simp add: s placeholders_snoc)
qed

subsection \<open>The scan buffer along a run\<close>

lemma Next_frame:
  assumes "Next sprintf lx = Inr (r, lx')"
  shows "lex_tokenPos lx' = lex_tokenPos lx"
    and "\<forall>x \<in> set (br_buf (lex_r lx)). 0 \<le> x \<Longrightarrow> \<forall>x \<in> set (br_buf (lex_r lx')). 0 \<le> x"
    and "\<forall>x \<in> set (br_buf (lex_r lx)). 0 \<le> x \<Longrightarrow> \<not> lex_eof lx' \<Longrightarrow> 0 \<le> r"
  using assms
  by (cases rule: Next_elims;
      auto simp: Next_def br_ReadRune_def bufio_ReadRune_def Errorf_def Let_def
        split: if_splits list.splits)+

lemma consumed_span_snoc: "consumed_span (steps @ [st]) = span_step (consumed_span steps) st"
  by (simp add: consumed_span_def)

lemma span_start_snoc: "span_start (steps @ [st]) = start_step (span_start steps) st"
  by (simp add: span_start_def)

lemma Backup_frame:
  assumes "Backup lx = Inr lx'"
  shows "br_buf (lex_r lx') = br_buf (lex_r lx)"
  using Backup_reader [OF assms] by simp

lemma current_pos: "\<lparr>line = lexer_Line lx, col = lexer_Col lx, pos = lexer_Pos lx\<rparr> = lex_pos lx"
  by (simp add: lexer_Line_def lexer_Col_def lexer_Pos_def)

lemma br_Ignore_nonneg:
  "\<forall>x \<in> set (br_buf br). 0 \<le> x \<Longrightarrow> \<forall>x \<in> set (br_buf (br_Ignore br)). 0 \<le> x"
  using br_Ignore_ok [of br] by (cases "br_buf br = []") simp_all

lemma inv_span_step:
  assumes "inv_span steps lx" "call1 sprintf c lx = Inr (ret, lx')"
  shows "inv_span (steps @ [\<lparr>step_call = c, step_ret = ret, step_before = lx, step_after = lx'\<rparr>]) lx'"
proof (cases c)
  case CallNext
  with assms(2) obtain r where n: "Next sprintf lx = Inr (r, lx')" and r: "ret = Some r"
    by (auto split: sum.splits)
  from assms(1) have nn: "\<forall>x \<in> set (br_buf (lex_r lx)). 0 \<le> x"
    by (simp add: inv_span_def)
  have "lex_value lx' = span_step (consumed_span steps)
      \<lparr>step_call = CallNext, step_ret = Some r, step_before = lx, step_after = lx'\<rparr>"
    if e: "\<not> lex_eof lx'"
  proof -
    from Next_ok [OF n e] have v: "lex_value lx' = lex_value lx @ [r]" by simp
    from n e have "\<not> lex_eof lx"
      using call1_eof_mono [of sprintf CallNext lx "Some r" lx'] by auto
    with assms(1) have "lex_value lx = consumed_span steps"
      by (simp add: inv_span_def)
    moreover from Next_frame(3) [OF n nn e] have "r \<noteq> EOF"
      by (simp add: EOF_def)
    ultimately show ?thesis
      using v by (simp add: span_step_def)
  qed
  with assms(1) Next_frame(1,2) [OF n] nn show ?thesis
    by (auto simp: CallNext r inv_span_def consumed_span_snoc span_start_snoc start_step_def)
next
  case CallPeek
  with assms(2) obtain r lx1 where n: "Next sprintf lx = Inr (r, lx1)" and b: "Backup lx1 = Inr lx'"
    by (auto simp: Peek_def split: sum.splits)
  from assms(1) have nn: "\<forall>x \<in> set (br_buf (lex_r lx)). 0 \<le> x"
    by (simp add: inv_span_def)
  have "lex_value lx' = consumed_span steps" if e: "\<not> lex_eof lx'"
  proof -
    from e Backup_ok [OF b] have e1: "\<not> lex_eof lx1" by simp
    from Next_ok [OF n e1] Backup_ok [OF b] have v: "lex_value lx' = lex_value lx" by simp
    from n e1 have "\<not> lex_eof lx"
      using call1_eof_mono [of sprintf CallNext lx "Some r" lx1] by auto
    with assms(1) v show ?thesis
      by (simp add: inv_span_def)
  qed
  with assms(1) Next_frame(1,2) [OF n] nn Backup_ok [OF b] Backup_frame [OF b] show ?thesis
    by (auto simp: CallPeek inv_span_def consumed_span_snoc span_start_snoc start_step_def
        span_step_def)
next
  case CallBackup
  with assms(2) have b: "Backup lx = Inr lx'"
    by (auto split: sum.splits)
  with assms(1) Backup_ok [OF b] Backup_frame [OF b] show ?thesis
    by (simp add: CallBackup inv_span_def consumed_span_snoc span_start_snoc start_step_def
        span_step_def)
next
  case CallIgnore
  with assms(2) have l: "lx' = Ignore lx" by simp
  with assms(1) Ignore_ok [of lx] br_Ignore_nonneg [of "lex_r lx"] show ?thesis
    by (simp add: CallIgnore inv_span_def consumed_span_snoc span_start_snoc start_step_def
        span_step_def current_pos Ignore_reader)
next
  case (CallEmit t)
  with assms(2) have l: "lx' = EmitExtra t None lx" by (simp add: Emit_def)
  with assms(1) EmitExtra_ok [of t None lx] br_Ignore_nonneg [of "lex_r lx"] show ?thesis
    by (simp add: CallEmit inv_span_def consumed_span_snoc span_start_snoc start_step_def
        span_step_def current_pos EmitExtra_reader)
next
  case (CallEmitExtra t extra)
  with assms(2) have l: "lx' = EmitExtra t extra lx" by simp
  with assms(1) EmitExtra_ok [of t extra lx] br_Ignore_nonneg [of "lex_r lx"] show ?thesis
    by (simp add: CallEmitExtra inv_span_def consumed_span_snoc span_start_snoc start_step_def
        span_step_def current_pos EmitExtra_reader)
next
  case (CallErrorf t fm args)
  with assms(2) have l: "lx' = snd (Errorf sprintf t fm args lx :: unit option \<times> 'a lexer)" by simp
  with assms(1) show ?thesis
    by (simp add: CallErrorf Errorf_ok inv_span_def consumed_span_snoc span_start_snoc
        start_step_def span_step_def)
qed

lemma inv_span_exec:
  "exec sprintf cs (NewLexer rd) = Inr (steps, lx) \<Longrightarrow> inv_span steps lx"
proof (induction cs arbitrary: steps lx rule: rev_induct)
  case Nil
  then show ?case
    by (auto simp: inv_span_def NewLexer_def newbufreader_def consumed_span_def span_start_def)
next
  case (snoc c cs)
  from snoc.prems(1) obtain steps1 lx1 ret where
    e: "exec sprintf cs (NewLexer rd) = Inr (steps1, lx1)"
    and c: "call1 sprintf c lx1 = Inr (ret, lx)"
    and s: "steps = steps1 @ [\<lparr>step_call = c, step_ret = ret, step_before = lx1, step_after = lx\<rparr>]"
    by (auto simp: exec_snoc split: sum.splits)
  from snoc.IH [OF e] c show ?case
    unfolding s by (rule inv_span_step)
qed

text \<open>
  The end-of-source flag is set exactly when some \<open>Next\<close> (or \<open>Peek\<close>) of the run has
  returned the sentinel: a character read from the source is never \<open>EOF\<close>.
\<close>

lemma call1_sentinel:
  assumes "call1 sprintf c lx = Inr (ret, lx')" "\<forall>x \<in> set (br_buf (lex_r lx)). 0 \<le> x"
  shows "lex_eof lx' \<longleftrightarrow> lex_eof lx \<or> ret = Some EOF"
proof (cases c)
  case CallNext
  with assms(1) obtain r where n: "Next sprintf lx = Inr (r, lx')" and r: "ret = Some r"
    by (auto split: sum.splits)
  from n show ?thesis
  proof (cases rule: Next_elims)
    case (fail e)
    then show ?thesis by (simp add: r)
  next
    case buffered
    with assms(2) have "0 \<le> r" by simp
    with buffered show ?thesis by (simp add: r EOF_def)
  next
    case (source c cs)
    then show ?thesis by (simp add: r EOF_def)
  qed
next
  case CallPeek
  with assms(1) obtain r lx1 where n: "Next sprintf lx = Inr (r, lx1)" and b: "Backup lx1 = Inr lx'"
    and r: "ret = Some r"
    by (auto simp: Peek_def split: sum.splits)
  from n have "lex_eof lx1 \<longleftrightarrow> lex_eof lx \<or> r = EOF"
  proof (cases rule: Next_elims)
    case (fail e)
    then show ?thesis by simp
  next
    case buffered
    with assms(2) have "0 \<le> r" by simp
    with buffered show ?thesis by (simp add: EOF_def)
  next
    case (source c cs)
    then show ?thesis by (simp add: EOF_def)
  qed
  with Backup_ok [OF b] show ?thesis by (simp add: r)
next
  case CallBackup
  with assms(1) have b: "Backup lx = Inr lx'" and r: "ret = None"
    by (auto split: sum.splits)
  with Backup_ok [OF b] show ?thesis by simp
next
  case CallIgnore
  with assms(1) Ignore_ok [of lx] show ?thesis by auto
next
  case (CallEmit t)
  with assms(1) EmitExtra_ok [of t None lx] show ?thesis by (auto simp: Emit_def)
next
  case (CallEmitExtra t extra)
  with assms(1) EmitExtra_ok [of t extra lx] show ?thesis by auto
next
  case (CallErrorf t fm args)
  with assms(1) show ?thesis by (auto simp: Errorf_ok)
qed

lemma eof_iff_sentinel:
  "exec sprintf cs (NewLexer rd) = Inr (steps, lx) \<Longrightarrow> lex_eof lx \<longleftrightarrow> \<not> no_sentinel steps"
proof (induction cs arbitrary: steps lx rule: rev_induct)
  case Nil
  then show ?case
    by (auto simp: NewLexer_def no_sentinel_def)
next
  case (snoc c cs)
  from snoc.prems(1) obtain steps1 lx1 ret where
    e: "exec sprintf cs (NewLexer rd) = Inr (steps1, lx1)"
    and c: "call1 sprintf c lx1 = Inr (ret, lx)"
    and s: "steps = steps1 @ [\<lparr>step_call = c, step_ret = ret, step_before = lx1, step_after = lx\<rparr>]"
    by (auto simp: exec_snoc split: sum.splits)
  from inv_span_exec [OF e] have "\<forall>x \<in> set (br_buf (lex_r lx1)). 0 \<le> x"
    by (simp add: inv_span_def)
  from call1_sentinel [OF c this] snoc.IH [OF e] show ?case
    by (auto simp: s no_sentinel_def)
qed

subsection \<open>Reading at the end of the source\<close>

lemma Next_fails:
  assumes "br_ReadRune (lex_r lx) = Inr (r, Some e, br)"
  shows "Next sprintf lx =
    Inr (EOF, (if e \<noteq> io_EOF then snd (Errorf sprintf TokError (Error e) [] (lx\<lparr>lex_r := br\<rparr>) :: unit option \<times> 'a lexer) else lx\<lparr>lex_r := br\<rparr>)
      \<lparr>lex_value := lex_value lx @ [0], lex_eof := True\<rparr>)
    \<and> br_err br = Some e"
  using assms
  by (auto simp: Next_def Let_def Errorf_def br_ReadRune_def bufio_ReadRune_def split: if_splits list.splits)

lemma Next_latched:
  assumes "br_err (lex_r lx) = Some e"
  shows "br_ReadRune (lex_r lx) = Inr (0, Some e, lex_r lx)"
  using assms by (simp add: br_ReadRune_def)

lemma Next_at_end:
  assumes "br_err (lex_r lx) = Some e"
  shows "\<exists>lx'. Next sprintf lx = Inr (EOF, lx') \<and> lex_value lx' = lex_value lx @ [0]
    \<and> lex_pos lx' = lex_pos lx \<and> lex_eof lx' \<and> br_err (lex_r lx') = Some e
    \<and> lex_tokenPos lx' = lex_tokenPos lx"
  using Next_fails [OF Next_latched [OF assms], of sprintf]
  by (auto simp: Errorf_def Let_def assms)

lemma Next_repeated_at_end:
  assumes "br_err (lex_r lx) = Some e"
  shows "\<exists>steps lx'. exec sprintf (replicate n CallNext) lx = Inr (steps, lx')
    \<and> map step_ret steps = replicate n (Some EOF)
    \<and> lex_value lx' = lex_value lx @ replicate n 0 \<and> lex_pos lx' = lex_pos lx
    \<and> lex_tokenPos lx' = lex_tokenPos lx
    \<and> br_err (lex_r lx') = Some e"
  using assms
proof (induction n arbitrary: lx)
  case 0
  then show ?case by simp
next
  case (Suc n)
  from Next_at_end [OF Suc.prems, of sprintf] obtain lx1 where
    n1: "Next sprintf lx = Inr (EOF, lx1)" and v1: "lex_value lx1 = lex_value lx @ [0]"
    and p1: "lex_pos lx1 = lex_pos lx" and e1: "br_err (lex_r lx1) = Some e"
    and t1: "lex_tokenPos lx1 = lex_tokenPos lx"
    by blast
  from Suc.IH [OF e1] obtain steps lx' where
    "exec sprintf (replicate n CallNext) lx1 = Inr (steps, lx')"
    "map step_ret steps = replicate n (Some EOF)"
    "lex_value lx' = lex_value lx1 @ replicate n 0" "lex_pos lx' = lex_pos lx1"
    "lex_tokenPos lx' = lex_tokenPos lx1"
    "br_err (lex_r lx') = Some e"
    by blast
  with n1 v1 p1 t1 show ?case
    by (simp add: replicate_app_Cons_same)
qed

lemma exec_append:
  "exec sprintf (cs1 @ cs2) lx =
     (case exec sprintf cs1 lx of
        Inl p \<Rightarrow> Inl p
      | Inr (steps1, lx1) \<Rightarrow>
          (case exec sprintf cs2 lx1 of
             Inl p \<Rightarrow> Inl p
           | Inr (steps2, lx2) \<Rightarrow> Inr (steps1 @ steps2, lx2)))"
  by (induction cs1 arbitrary: lx) (auto split: sum.splits)

lemma Next_reads:
  assumes "br_err (lex_r lx) = None" "br_pos (lex_r lx) = int (length (br_buf (lex_r lx)))"
    "src_runes (br_r (lex_r lx)) = c # cs"
  shows "\<exists>lx'. Next sprintf lx = Inr (int c, lx') \<and> lex_value lx' = lex_value lx @ [int c]
    \<and> lex_pos lx' = Advance (int c) (lex_pos lx) \<and> br_err (lex_r lx') = None
    \<and> br_pos (lex_r lx') = int (length (br_buf (lex_r lx')))
    \<and> src_runes (br_r (lex_r lx')) = cs \<and> src_err (br_r (lex_r lx')) = src_err (br_r (lex_r lx))"
  using assms
  by (simp add: Next_def Let_def br_ReadRune_def bufio_ReadRune_def)

lemma Next_reads_all:
  assumes "br_err (lex_r lx) = None" "br_pos (lex_r lx) = int (length (br_buf (lex_r lx)))"
    "src_runes (br_r (lex_r lx)) = s" "lex_pos lx = pos_of c"
  shows "\<exists>steps lx'. exec sprintf (replicate (length s) CallNext) lx = Inr (steps, lx')
    \<and> map step_ret steps = map (\<lambda>c. Some (int c)) s
    \<and> lex_value lx' = lex_value lx @ map int s
    \<and> lex_pos lx' = pos_of (c @ map int s) \<and> br_err (lex_r lx') = None
    \<and> br_pos (lex_r lx') = int (length (br_buf (lex_r lx')))
    \<and> src_runes (br_r (lex_r lx')) = [] \<and> src_err (br_r (lex_r lx')) = src_err (br_r (lex_r lx))"
  using assms
proof (induction s arbitrary: lx c)
  case Nil
  then show ?case by simp
next
  case (Cons a s)
  from Next_reads [OF Cons.prems(1,2,3), of sprintf] obtain lx1 where
    n: "Next sprintf lx = Inr (int a, lx1)" and v: "lex_value lx1 = lex_value lx @ [int a]"
    and p: "lex_pos lx1 = Advance (int a) (lex_pos lx)" and e: "br_err (lex_r lx1) = None"
    and b: "br_pos (lex_r lx1) = int (length (br_buf (lex_r lx1)))"
    and r: "src_runes (br_r (lex_r lx1)) = s"
    and se: "src_err (br_r (lex_r lx1)) = src_err (br_r (lex_r lx))"
    by blast
  from p Cons.prems(4) have p': "lex_pos lx1 = pos_of (c @ [int a])"
    by (simp add: Advance_pos_of)
  from Cons.IH [OF e b r p'] n v se show ?case
    by auto
qed

lemma Next_at_exhausted:
  assumes "br_err (lex_r lx) = None" "br_pos (lex_r lx) = int (length (br_buf (lex_r lx)))"
    "src_runes (br_r (lex_r lx)) = []"
  shows "br_ReadRune (lex_r lx) =
    Inr (0, Some (src_err (br_r (lex_r lx))), (lex_r lx)\<lparr>br_err := Some (src_err (br_r (lex_r lx)))\<rparr>)"
  using assms by (simp add: br_ReadRune_def bufio_ReadRune_def)

subsection \<open>Undoing a \<open>Next\<close>\<close>

lemma inv_reader_Next:
  assumes "inv_reader lx" "Next sprintf lx = Inr (r, lx')"
  shows "inv_reader lx'"
  using assms(2)
proof (cases rule: Next_elims)
  case (fail e)
  then show ?thesis
    by (simp add: inv_reader_def Let_def)
next
  case buffered
  from buffered have n: "nat (br_pos (lex_r lx)) < length (br_buf (lex_r lx))"
    "nat (br_pos (lex_r lx) + 1) = Suc (nat (br_pos (lex_r lx)))"
    by simp_all
  with buffered assms(1) show ?thesis
    by (simp add: inv_reader_def Let_def take_Suc_conv_app_nth)
next
  case (source c cs)
  with assms(1) have "br_pos (lex_r lx) = int (length (br_buf (lex_r lx)))"
    "suffix (lex_value lx) (br_buf (lex_r lx))"
    by (auto simp: inv_reader_def Let_def)
  with source show ?thesis
    by (simp add: inv_reader_def Let_def)
qed

lemma suffix_take_pos:
  assumes "suffix (w @ [x]) (take n buf)" "n \<le> length buf"
  shows "0 < n \<and> n - 1 < length buf \<and> x = buf ! (n - 1) \<and> suffix w (take (n - 1) buf)"
proof -
  from assms(1) obtain zs where z: "take n buf = zs @ w @ [x]"
    by (auto simp: suffix_def)
  have n: "0 < n" "buf \<noteq> []"
  proof -
    from z show "0 < n" by (cases n) simp_all
    from z show "buf \<noteq> []" by (cases buf) simp_all
  qed
  from n assms(2) have l: "n - 1 < length buf"
    by simp
  from n l have "take n buf = take (n - 1) buf @ [buf ! (n - 1)]"
    using take_Suc_conv_app_nth [of "n - 1" buf] by simp
  with assms(1) have "x = buf ! (n - 1) \<and> suffix w (take (n - 1) buf)"
    by simp
  with n l show ?thesis
    by simp
qed

lemma inv_reader_Backup:
  assumes "inv_reader lx" "Backup lx = Inr lx'"
  shows "inv_reader lx'"
proof (cases "br_err (lex_r lx)")
  case None
  from Backup_ok [OF assms(2)] obtain w x where v: "lex_value lx = w @ [x]"
    by (metis append_butlast_last_id)
  with None assms(1) have i: "0 \<le> br_pos (lex_r lx)"
    "br_pos (lex_r lx) \<le> int (length (br_buf (lex_r lx)))"
    "suffix (w @ [x]) (take (nat (br_pos (lex_r lx))) (br_buf (lex_r lx)))"
    by (auto simp: inv_reader_def Let_def)
  from i(1,2) have "nat (br_pos (lex_r lx)) \<le> length (br_buf (lex_r lx))"
    by simp
  from suffix_take_pos [OF i(3) this] have s: "0 < nat (br_pos (lex_r lx))"
    "suffix w (take (nat (br_pos (lex_r lx)) - 1) (br_buf (lex_r lx)))"
    by simp_all
  then have "nat (br_pos (lex_r lx) - 1) = nat (br_pos (lex_r lx)) - 1" "0 \<le> br_pos (lex_r lx) - 1"
    by simp_all
  with None i s v Backup_ok [OF assms(2)] Backup_reader [OF assms(2)] show ?thesis
    by (simp add: inv_reader_def Let_def)
next
  case (Some e)
  with assms(1) Backup_ok [OF assms(2)] Backup_reader [OF assms(2)] show ?thesis
    by (simp add: inv_reader_def Let_def)
qed

lemma inv_reader_Ignore:
  assumes "inv_reader lx" "lex_r lx' = br_Ignore (lex_r lx)" "lex_value lx' = []"
    "lex_eof lx' = lex_eof lx"
  shows "inv_reader lx'"
  using assms br_Ignore_ok [of "lex_r lx"]
  by (cases "br_err (lex_r lx)") (simp_all add: inv_reader_def Let_def)

lemma inv_reader_step:
  fixes lx :: "'x lexer"
  assumes "inv_reader lx" "call1 sprintf c lx = Inr (ret, lx')"
  shows "inv_reader lx'"
proof (cases c)
  case CallNext
  with assms(2) obtain r where "Next sprintf lx = Inr (r, lx')"
    by (auto split: sum.splits)
  with assms(1) show ?thesis
    by (rule inv_reader_Next)
next
  case CallPeek
  with assms(2) obtain r lx1 where n: "Next sprintf lx = Inr (r, lx1)" and b: "Backup lx1 = Inr lx'"
    by (auto simp: Peek_def split: sum.splits)
  from inv_reader_Next [OF assms(1) n] b show ?thesis
    by (rule inv_reader_Backup)
next
  case CallBackup
  with assms(2) have "Backup lx = Inr lx'"
    by (auto split: sum.splits)
  with assms(1) show ?thesis
    by (rule inv_reader_Backup)
next
  case CallIgnore
  with assms(2) have l: "lx' = Ignore lx" by simp
  show ?thesis
    by (rule inv_reader_Ignore [OF assms(1)]) (simp_all add: l Ignore_reader Ignore_ok)
next
  case (CallEmit t)
  with assms(2) have l: "lx' = Emit t lx" by simp
  show ?thesis
    by (rule inv_reader_Ignore [OF assms(1)]) (simp_all add: l Emit_def EmitExtra_reader EmitExtra_ok)
next
  case (CallEmitExtra t extra)
  with assms(2) have l: "lx' = EmitExtra t extra lx" by simp
  show ?thesis
    by (rule inv_reader_Ignore [OF assms(1)]) (simp_all add: l EmitExtra_reader EmitExtra_ok)
next
  case (CallErrorf t fm args)
  with assms(2) have l: "lx' = snd (Errorf sprintf t fm args lx :: unit option \<times> 'x lexer)" by simp
  from assms(1) show ?thesis
    by (cases "br_err (lex_r lx)") (simp_all add: l Errorf_ok inv_reader_def Let_def)
qed

lemma inv_reader_exec:
  "exec sprintf cs (NewLexer rd) = Inr (steps, lx) \<Longrightarrow> inv_reader lx"
proof (induction cs arbitrary: steps lx rule: rev_induct)
  case Nil
  then show ?case
    by (auto simp: inv_reader_def NewLexer_def newbufreader_def Let_def)
next
  case (snoc c cs)
  from snoc.prems(1) obtain steps1 lx1 ret where
    e: "exec sprintf cs (NewLexer rd) = Inr (steps1, lx1)"
    and c: "call1 sprintf c lx1 = Inr (ret, lx)"
    by (auto simp: exec_snoc split: sum.splits)
  from snoc.IH [OF e] c show ?case
    by (rule inv_reader_step)
qed

lemma Backup_Next_round_trip:
  fixes lx :: "'x lexer"
  assumes "inv_pos steps lx" "inv_reader lx" "\<not> lex_eof lx" "lex_value lx \<noteq> []"
  shows "\<exists>lx2. Backup lx = Inr lx2 \<and> Next sprintf lx2 = Inr (last (lex_value lx), lx)"
proof -
  from assms(4) obtain w x where v: "lex_value lx = w @ [x]"
    by (metis append_butlast_last_id)
  from assms(1,4) prevPos_empty_value_empty have pp: "lex_prevPos lx \<noteq> []"
    by blast
  from assms(2,3) have e: "br_err (lex_r lx) = None"
    by (cases "br_err (lex_r lx)") (simp_all add: inv_reader_def Let_def)
  with assms(2) v have i: "0 \<le> br_pos (lex_r lx)"
    "br_pos (lex_r lx) \<le> int (length (br_buf (lex_r lx)))"
    "suffix (w @ [x]) (take (nat (br_pos (lex_r lx))) (br_buf (lex_r lx)))"
    by (auto simp: inv_reader_def Let_def)
  from i(1,2) have "nat (br_pos (lex_r lx)) \<le> length (br_buf (lex_r lx))"
    by simp
  from suffix_take_pos [OF i(3) this] have s: "0 < nat (br_pos (lex_r lx))"
    "nat (br_pos (lex_r lx)) - 1 < length (br_buf (lex_r lx))"
    "x = br_buf (lex_r lx) ! (nat (br_pos (lex_r lx)) - 1)"
    by simp_all
  then have n: "nat (br_pos (lex_r lx) - 1) = nat (br_pos (lex_r lx)) - 1"
    "0 \<le> br_pos (lex_r lx) - 1" "br_pos (lex_r lx) - 1 < int (length (br_buf (lex_r lx)))"
    by simp_all
  from assms(1) v have p: "lex_pos lx = pos_of (recon steps @ w @ [x])"
    "last (lex_prevPos lx) = pos_of (recon steps @ w)"
    by (simp_all add: inv_pos_def butlast_prefixes_snoc last_map_prefixes)
  with pp have q: "butlast (lex_prevPos lx) @ [pos_of (recon steps @ w)] = lex_prevPos lx"
    using append_butlast_last_id [of "lex_prevPos lx"] by simp
  from v pp obtain lx2 where b: "Backup lx = Inr lx2"
    by (auto simp: Backup_def Let_def)
  from Backup_ok [OF b] Backup_reader [OF b] v p have f:
    "lex_r lx2 = (lex_r lx)\<lparr>br_pos := br_pos (lex_r lx) - 1\<rparr>" "lex_value lx2 = w"
    "lex_pos lx2 = pos_of (recon steps @ w)" "lex_prevPos lx2 = butlast (lex_prevPos lx)"
    "lex_tokens lx2 = lex_tokens lx" "lex_tokenPos lx2 = lex_tokenPos lx" "lex_eof lx2 = lex_eof lx"
    by simp_all
  have m: "lexer.more lx2 = lexer.more lx"
    using b by (auto simp: Backup_def Let_def split: if_splits)
  have c: "CopyTo p pos0 = p" for p :: pos
    by (simp add: CopyTo_def pos0_def)
  from f e n s have nx: "Next sprintf lx2 =
      Inr (x, lx2\<lparr>lex_r := lex_r lx, lex_pos := Advance x (lex_pos lx2),
               lex_prevPos := lex_prevPos lx2 @ [lex_pos lx2], lex_value := lex_value lx2 @ [x]\<rparr>)"
    by (simp add: Next_def br_ReadRune_def Let_def c)
  have "lx2\<lparr>lex_r := lex_r lx, lex_pos := Advance x (lex_pos lx2),
           lex_prevPos := lex_prevPos lx2 @ [lex_pos lx2], lex_value := lex_value lx2 @ [x]\<rparr> = lx"
    by (rule lexer.equality) (simp_all add: f m v p q Advance_pos_of)
  with nx have "Next sprintf lx2 = Inr (x, lx)"
    by simp
  with b v show ?thesis
    by simp
qed

section \<open>The claims\<close>

text \<open>
  C1, as the code has it: when \<open>Next\<close> meets a read failure other than \<^verbatim>\<open>io.EOF\<close> it publishes
  exactly one error token at the current position and sets the end-of-source flag; the
  flag is never unset by an engine call, and with the flag set the driver starts no
  further state function and closes the stream. The state function in which the failure
  happened runs on to its own return, and what it emits before that is delivered after the
  error token. For the source that yields \<open>''foo bar''\<close> and then fails with \<open>broken\<close>, the
  stream is \<open>foo\<close> at (0, 0, 0), the error token at (0, 7, 7), then \<open>bar\<close> at (0, 4, 4), and
  then it is closed.
\<close>

theorem read_error_ends_scan_after_running_state:
  fixes lx :: "'x lexer" and sprintf :: "gostring \<Rightarrow> 'a list \<Rightarrow> gostring"
    and step :: "'q \<Rightarrow> 'x lexer \<Rightarrow> panic + ('q option \<times> 'x lexer)"
  shows
  "closed_stream (Run (test_step sprintf) fn_lexSkipSpaces
      (NewLexer \<lparr>src_runes = codepoints ''foo bar'', src_err = Err (gostr ''broken'')\<rparr>
        :: 'x lexer)) =
    Some
      [\<lparr>Type = TokWord, Value = gostr ''foo'', Line = 0, Col = 0, Pos = 0, Extra = None\<rparr>,
       \<lparr>Type = TokError, Value = sprintf (gostr ''broken'') [], Line = 0, Col = 7, Pos = 7,
         Extra = None\<rparr>,
       \<lparr>Type = TokWord, Value = gostr ''bar'', Line = 0, Col = 4, Pos = 4, Extra = None\<rparr>]
   \<and> (br_ReadRune (lex_r lx) = Inr (r, Some e, br) \<and> e \<noteq> io_EOF \<longrightarrow>
        (\<exists>lx'. Next sprintf lx = Inr (EOF, lx')
           \<and> lex_tokens lx' = lex_tokens lx @
               [\<lparr>Type = TokError, Value = sprintf (Error e) [], Line = lexer_Line lx,
                 Col = lexer_Col lx, Pos = lexer_Pos lx, Extra = None\<rparr>]
           \<and> lex_eof lx'))
   \<and> (lex_eof lx \<longrightarrow> Run_loop step st lx = Some (Inr lx))
   \<and> (lex_eof lx \<and> call1 sprintf c lx = Inr (ret, lx2) \<longrightarrow> lex_eof lx2)"
proof (intro conjI impI)
  show "closed_stream (Run (test_step sprintf) fn_lexSkipSpaces
      (NewLexer \<lparr>src_runes = codepoints ''foo bar'', src_err = Err (gostr ''broken'')\<rparr>
        :: 'x lexer)) =
    Some
      [\<lparr>Type = TokWord, Value = gostr ''foo'', Line = 0, Col = 0, Pos = 0, Extra = None\<rparr>,
       \<lparr>Type = TokError, Value = sprintf (gostr ''broken'') [], Line = 0, Col = 7, Pos = 7,
         Extra = None\<rparr>,
       \<lparr>Type = TokWord, Value = gostr ''bar'', Line = 0, Col = 4, Pos = 4, Extra = None\<rparr>]"
    by (simp add: closed_stream_def run_defs engine_defs)
next
  assume "br_ReadRune (lex_r lx) = Inr (r, Some e, br) \<and> e \<noteq> io_EOF"
  then show "\<exists>lx'. Next sprintf lx = Inr (EOF, lx')
           \<and> lex_tokens lx' = lex_tokens lx @
               [\<lparr>Type = TokError, Value = sprintf (Error e) [], Line = lexer_Line lx,
                 Col = lexer_Col lx, Pos = lexer_Pos lx, Extra = None\<rparr>]
           \<and> lex_eof lx'"
    using Next_fails [of lx r e br sprintf]
    by (simp add: Errorf_ok lexer_Line_def lexer_Col_def lexer_Pos_def)
next
  assume "lex_eof lx"
  then show "Run_loop step st lx = Some (Inr lx)"
    by (cases st) (simp_all add: Run_loop.simps)
next
  assume "lex_eof lx \<and> call1 sprintf c lx = Inr (ret, lx2)"
  then show "lex_eof lx2"
    using call1_eof_mono by blast
qed

theorem read_error_ends_scan_after_running_state_witness:
  "br_ReadRune (lex_r (NewLexer \<lparr>src_runes = [], src_err = Err (gostr ''broken'')\<rparr> :: unit lexer)) =
     Inr (0, Some (Err (gostr ''broken'')),
       (lex_r (NewLexer \<lparr>src_runes = [], src_err = Err (gostr ''broken'')\<rparr> :: unit lexer))
         \<lparr>br_err := Some (Err (gostr ''broken''))\<rparr>)
   \<and> Err (gostr ''broken'') \<noteq> io_EOF
   \<and> (\<exists>lx'. Next plain (NewLexer \<lparr>src_runes = [], src_err = Err (gostr ''broken'')\<rparr> :: unit lexer)
           = Inr (EOF, lx')
         \<and> map Value (lex_tokens lx') = [gostr ''broken''] \<and> lex_eof lx'
         \<and> Run_loop (test_step plain) (Some fn_lexWord) lx' = Some (Inr lx'))"
proof -
  let ?lx = "NewLexer \<lparr>src_runes = [], src_err = Err (gostr ''broken'')\<rparr> :: unit lexer"
  let ?br = "(lex_r ?lx)\<lparr>br_err := Some (Err (gostr ''broken''))\<rparr>"
  have h: "br_ReadRune (lex_r ?lx) = Inr (0, Some (Err (gostr ''broken'')), ?br)"
    by (simp add: engine_defs)
  have ne: "Err (gostr ''broken'') \<noteq> io_EOF"
    by simp
  from read_error_ends_scan_after_running_state [of plain ?lx 0 "Err (gostr ''broken'')" ?br] h ne
  obtain lx' where n: "Next plain ?lx = Inr (EOF, lx')"
    and t: "lex_tokens lx' = lex_tokens ?lx @
               [\<lparr>Type = TokError, Value = plain (Error (Err (gostr ''broken''))) [],
                 Line = lexer_Line ?lx, Col = lexer_Col ?lx, Pos = lexer_Pos ?lx, Extra = None\<rparr>]"
    and e: "lex_eof lx'"
    by blast
  from read_error_ends_scan_after_running_state [of plain lx' _ _ _ "test_step plain" "Some fn_lexWord"] e
  have "Run_loop (test_step plain) (Some fn_lexWord) lx' = Some (Inr lx')"
    by blast
  with h ne n t e show ?thesis
    by (simp add: NewLexer_def plain_def)
qed

text \<open>
  The claim as stated fails on its own scenario: a third token follows the error token.
\<close>

theorem token_after_error_token:
  "closed_stream (Run (test_step plain) fn_lexSkipSpaces
      (NewLexer \<lparr>src_runes = codepoints ''foo bar'', src_err = Err (gostr ''broken'')\<rparr>
        :: unit lexer)) =
    Some
      [\<lparr>Type = TokWord, Value = gostr ''foo'', Line = 0, Col = 0, Pos = 0, Extra = None\<rparr>,
       \<lparr>Type = TokError, Value = gostr ''broken'', Line = 0, Col = 7, Pos = 7, Extra = None\<rparr>,
       \<lparr>Type = TokWord, Value = gostr ''bar'', Line = 0, Col = 4, Pos = 4, Extra = None\<rparr>]
   \<and> closed_stream (Run (test_step plain) fn_lexSkipSpaces
      (NewLexer \<lparr>src_runes = codepoints ''foo bar'', src_err = Err (gostr ''broken'')\<rparr>
        :: unit lexer)) \<noteq>
    Some
      [\<lparr>Type = TokWord, Value = gostr ''foo'', Line = 0, Col = 0, Pos = 0, Extra = None\<rparr>,
       \<lparr>Type = TokError, Value = gostr ''broken'', Line = 0, Col = 7, Pos = 7, Extra = None\<rparr>]"
  by (simp add: closed_stream_def run_defs engine_defs plain_def)

text \<open>
  C2, as the code has it by design: for every input and every sequence of engine calls
  that does not panic and that never calls \<open>Ignore\<close>, \<open>Emit\<close> or \<open>EmitExtra\<close> while the scan
  buffer holds an end-of-source placeholder, the text committed so far (the texts of the
  emitted tokens and the spans discarded by \<open>Ignore\<close>, in emission order, error tokens left
  out), then the characters in the scan buffer, then the characters the reader still
  delivers, make up the input, at every point of the run. So once the end of the source
  has been observed and the scan buffer holds nothing but placeholders, the committed text
  is the input, character for character. The source may end with \<^verbatim>\<open>io.EOF\<close> or with any other
  error, and the input may be empty.

  Two kinds of run are left out, and nothing is said about them here: those that reach
  \<open>bufreader.Ignore\<close> while the reader can still deliver and not exactly its last buffered
  rune is unread (\<open>trims_one_unread\<close> fails), and those that, after the end of the source,
  back up a character rather than a placeholder (\<open>backs_up_placeholders\<close> fails). On the
  first kind \<open>bufreader.Ignore\<close> hands out a consumed character again or drops an unread
  one; see \<open>bufreader_Ignore_redelivers\<close> below.
\<close>

theorem committed_text_is_input:
  assumes "exec sprintf cs (NewLexer rd) = Inr (steps, lx)"
    "no_placeholder_committed 0 steps" "backs_up_placeholders 0 steps" "trims_one_unread steps"
  shows "recon steps @ take (length (lexer_Value lx) - placeholders steps) (lexer_Value lx)
      @ unread lx = map int (src_runes rd)
    \<and> (lex_eof lx \<and> lexer_Value lx = replicate (placeholders steps) 0 \<longrightarrow>
         recon steps = map int (src_runes rd))"
proof (cases "br_err (lex_r lx)")
  case None
  with inv_src_exec [OF assms] have i: "\<not> lex_eof lx" "placeholders steps = 0"
    "lex_value lx = take (nat (br_pos (lex_r lx))) (br_buf (lex_r lx))"
    "recon steps @ br_buf (lex_r lx) @ map int (src_runes (br_r (lex_r lx))) = map int (src_runes rd)"
    by (auto simp: inv_src_def Let_def)
  have "take (nat (br_pos (lex_r lx))) (br_buf (lex_r lx)) @
      drop (nat (br_pos (lex_r lx))) (br_buf (lex_r lx)) = br_buf (lex_r lx)"
    by (rule append_take_drop_id)
  with i(4) have "recon steps @ take (nat (br_pos (lex_r lx))) (br_buf (lex_r lx)) @
      drop (nat (br_pos (lex_r lx))) (br_buf (lex_r lx)) @ map int (src_runes (br_r (lex_r lx)))
      = map int (src_runes rd)"
    by (metis append.assoc)
  then have "recon steps @ lex_value lx @ unread lx = map int (src_runes rd)"
    using None by (simp add: i(3) unread_def Let_def)
  moreover have "take (length (lex_value lx) - placeholders steps) (lex_value lx) = lex_value lx"
    by (simp add: i(2))
  ultimately show ?thesis
    using i(1) by (simp add: lexer_Value_def)
next
  case (Some e)
  with inv_src_exec [OF assms] show ?thesis
    by (auto simp: inv_src_def Let_def lexer_Value_def unread_def)
qed

theorem committed_text_is_input_witness:
  "(case exec plain
          [CallNext, CallBackup, CallIgnore, CallPeek, CallNext, CallPeek, CallEmit TokWord,
           CallNext, CallNext, CallBackup, CallIgnore, CallPeek, CallNext, CallPeek,
           CallEmit TokWord]
          (NewLexerString ''a b'' :: unit lexer) of
     Inl p \<Rightarrow> False
   | Inr (steps, lx) \<Rightarrow>
       no_placeholder_committed 0 steps \<and> backs_up_placeholders 0 steps
       \<and> trims_one_unread steps \<and> lex_eof lx \<and> placeholders steps = 0 \<and> lexer_Value lx = []
       \<and> map Value (lex_tokens lx) = [gostr ''a'', gostr ''b'']
       \<and> recon steps = gostr ''a b'')
   \<and> (case exec plain [CallNext] (NewLexerString [] :: unit lexer) of
     Inl p \<Rightarrow> False
   | Inr (steps, lx) \<Rightarrow>
       no_placeholder_committed 0 steps \<and> backs_up_placeholders 0 steps
       \<and> trims_one_unread steps \<and> lex_eof lx \<and> placeholders steps = 1 \<and> lexer_Value lx = [0]
       \<and> recon steps = [])"
proof -
  let ?cs = "[CallNext, CallBackup, CallIgnore, CallPeek, CallNext, CallPeek, CallEmit TokWord,
           CallNext, CallNext, CallBackup, CallIgnore, CallPeek, CallNext, CallPeek,
           CallEmit TokWord] :: (unit, unit) call list"
  let ?rd = "\<lparr>src_runes = codepoints ''a b'', src_err = io_EOF\<rparr>"
  let ?re = "\<lparr>src_runes = codepoints [], src_err = io_EOF\<rparr>"
  have "\<exists>steps lx. exec plain ?cs (NewLexer ?rd :: unit lexer) = Inr (steps, lx)
      \<and> no_placeholder_committed 0 steps \<and> backs_up_placeholders 0 steps
      \<and> trims_one_unread steps \<and> lex_eof lx \<and> placeholders steps = 0 \<and> lexer_Value lx = []
      \<and> map Value (lex_tokens lx) = [gostr ''a'', gostr ''b'']"
    by (simp add: engine_defs ghost_defs input_defs)
  then obtain steps lx where
    e: "exec plain ?cs (NewLexer ?rd :: unit lexer) = Inr (steps, lx)"
    and h: "no_placeholder_committed 0 steps" "backs_up_placeholders 0 steps"
      "trims_one_unread steps"
    and f: "lex_eof lx" and k: "placeholders steps = 0" and v: "lexer_Value lx = []"
    and t: "map Value (lex_tokens lx) = [gostr ''a'', gostr ''b'']"
    by (elim exE conjE)
  from committed_text_is_input [OF e h] f k v have r: "recon steps = gostr ''a b''"
    by (simp add: gostr_def)
  have "\<exists>steps lx. exec plain [CallNext] (NewLexer ?re :: unit lexer) = Inr (steps, lx)
      \<and> no_placeholder_committed 0 steps \<and> backs_up_placeholders 0 steps
      \<and> trims_one_unread steps \<and> lex_eof lx \<and> placeholders steps = 1 \<and> lexer_Value lx = [0]"
    by (simp add: engine_defs ghost_defs input_defs)
  then obtain steps0 lx0 where
    e0: "exec plain [CallNext] (NewLexer ?re :: unit lexer) = Inr (steps0, lx0)"
    and h0: "no_placeholder_committed 0 steps0" "backs_up_placeholders 0 steps0"
      "trims_one_unread steps0"
    and f0: "lex_eof lx0" and k0: "placeholders steps0 = 1" and v0: "lexer_Value lx0 = [0]"
    by (elim exE conjE)
  from committed_text_is_input [OF e0 h0] f0 k0 v0 have r0: "recon steps0 = []"
    by (simp add: codepoints_def)
  from e h f k v t r e0 h0 f0 k0 v0 r0 show ?thesis
    by (simp add: NewLexerString_def)
qed

text \<open>
  The claim as stated fails: on the input \<open>''a''\<close>, a state function that calls \<open>Next\<close>
  twice, the second call returning \<open>EOF\<close>, and then \<open>Emit\<close>, publishes the text \<open>a\<close> followed
  by NUL. The run ends with the end of the source observed and an empty scan buffer.
\<close>

theorem emitted_text_differs_from_input:
  "recon (trace (exec plain [CallNext, CallNext, CallEmit TokWord]
      (NewLexerString ''a'' :: unit lexer))) = gostr ''a'' @ [0]
   \<and> recon (trace (exec plain [CallNext, CallNext, CallEmit TokWord]
      (NewLexerString ''a'' :: unit lexer))) \<noteq> gostr ''a''
   \<and> map step_ret (trace (exec plain [CallNext, CallNext, CallEmit TokWord]
      (NewLexerString ''a'' :: unit lexer))) = [Some 97, Some EOF, None]
   \<and> map_sum id (\<lambda>lx. (lex_eof lx, lexer_Value lx))
       (final (exec plain [CallNext, CallNext, CallEmit TokWord]
          (NewLexerString ''a'' :: unit lexer))) = Inr (True, [])"
  by (simp add: ghost_defs engine_defs)

text \<open>
  What \<open>bufreader.Ignore\<close> does in the runs left out. On the input \<open>''ab''\<close>, \<open>Next\<close> returns
  \<open>a\<close> again after each \<open>Emit\<close> that directly follows a \<open>Next\<close>, and \<open>b\<close> is never reached;
  after two calls of \<open>Next\<close> and two of \<open>Backup\<close>, \<open>Ignore\<close> drops the unread \<open>a\<close>, and \<open>Next\<close>
  goes on with \<open>b\<close>.
\<close>

lemma bufreader_Ignore_redelivers:
  "map step_ret (trace (exec plain
      [CallNext, CallEmit TokWord, CallNext, CallEmit TokWord, CallNext]
      (NewLexerString ''ab'' :: unit lexer))) = [Some 97, None, Some 97, None, Some 97]
   \<and> \<not> trims_one_unread (trace (exec plain [CallNext, CallEmit TokWord]
      (NewLexerString ''ab'' :: unit lexer)))
   \<and> map step_ret (trace (exec plain
      [CallNext, CallNext, CallBackup, CallBackup, CallIgnore, CallNext, CallNext]
      (NewLexerString ''ab'' :: unit lexer))) =
      [Some 97, Some 98, None, None, None, Some 98, Some EOF]
   \<and> \<not> trims_one_unread (trace (exec plain
      [CallNext, CallNext, CallBackup, CallBackup, CallIgnore]
      (NewLexerString ''ab'' :: unit lexer)))"
  by (simp add: engine_defs ghost_defs input_defs)

text \<open>
  C3, as the code has it: every \<open>EmitExtra t extra\<close> (and \<open>Emit t\<close>, which is \<open>EmitExtra t\<close>
  with no payload) publishes one token whose \<open>Value\<close> is the current scan buffer and whose
  \<open>Line\<close>, \<open>Col\<close>, \<open>Pos\<close> are the token-start marker; afterwards the scan buffer is empty and
  the marker is the current position, which has not moved. On an engine reached from a new
  one by any sequence of calls, the marker is the position immediately after the previous
  \<open>Emit\<close> or \<open>Ignore\<close> (\<open>span_start\<close>), and, as long as \<open>Next\<close> has not yet returned the
  end-of-source sentinel, the scan buffer is exactly the characters consumed via \<open>Next\<close>
  since then minus those undone via \<open>Backup\<close> (\<open>consumed_span\<close>). Once \<open>Next\<close> has returned
  the sentinel the buffer may also hold the NUL placeholders of C9.
\<close>

theorem EmitExtra_publishes_scan_buffer:
  fixes lx :: "'x lexer"
  shows
  "lex_tokens (EmitExtra t extra lx) = lex_tokens lx @
     [\<lparr>Type = t, Value = lexer_Value lx, Line = line (lex_tokenPos lx),
       Col = col (lex_tokenPos lx), Pos = pos (lex_tokenPos lx), Extra = extra\<rparr>]
   \<and> lexer_Value (EmitExtra t extra lx) = []
   \<and> lex_tokenPos (EmitExtra t extra lx) = lex_pos (EmitExtra t extra lx)
   \<and> lex_pos (EmitExtra t extra lx) = lex_pos lx
   \<and> Emit t lx = EmitExtra t None lx
   \<and> (exec sprintf cs (NewLexer rd) = Inr (steps, lx) \<longrightarrow>
        lex_tokenPos lx = span_start steps
        \<and> (no_sentinel steps \<longrightarrow> lexer_Value lx = consumed_span steps))"
  using inv_span_exec [of sprintf cs rd steps lx] EmitExtra_ok [of t extra lx]
    eof_iff_sentinel [of sprintf cs rd steps lx]
  by (simp add: inv_span_def lexer_Value_def Emit_def)

theorem EmitExtra_publishes_scan_buffer_witness:
  "case exec plain [CallNext, CallNext, CallBackup, CallEmit TokWord, CallNext]
          (NewLexerString ''ab'' :: unit lexer) of
     Inl p \<Rightarrow> False
   | Inr (steps, lx) \<Rightarrow>
       no_sentinel steps \<and> lex_tokenPos lx = span_start steps
       \<and> lexer_Value lx = consumed_span steps
       \<and> consumed_span steps = gostr ''b''
       \<and> span_start steps = \<lparr>line = 0, col = 1, pos = 1\<rparr>
       \<and> lex_tokens (EmitExtra TokWord None lx) = lex_tokens lx @
           [\<lparr>Type = TokWord, Value = gostr ''b'', Line = 0, Col = 1, Pos = 1, Extra = None\<rparr>]"
proof -
  let ?cs = "[CallNext, CallNext, CallBackup, CallEmit TokWord, CallNext] :: (unit, unit) call list"
  let ?rd = "\<lparr>src_runes = codepoints ''ab'', src_err = io_EOF\<rparr>"
  have "\<exists>steps lx. exec plain ?cs (NewLexer ?rd :: unit lexer) = Inr (steps, lx)
      \<and> no_sentinel steps \<and> consumed_span steps = gostr ''b''
      \<and> span_start steps = \<lparr>line = 0, col = 1, pos = 1\<rparr>"
    by (simp add: engine_defs ghost_defs)
  then obtain steps lx where
    e: "exec plain ?cs (NewLexer ?rd :: unit lexer) = Inr (steps, lx)"
    and n: "no_sentinel steps" and c: "consumed_span steps = gostr ''b''"
    and s: "span_start steps = \<lparr>line = 0, col = 1, pos = 1\<rparr>"
    by (elim exE conjE)
  from EmitExtra_publishes_scan_buffer [of TokWord None lx plain ?cs ?rd steps] e n
  have "lex_tokens (EmitExtra TokWord None lx) = lex_tokens lx @
     [\<lparr>Type = TokWord, Value = lexer_Value lx, Line = line (lex_tokenPos lx),
       Col = col (lex_tokenPos lx), Pos = pos (lex_tokenPos lx), Extra = None\<rparr>]"
    and "lex_tokenPos lx = span_start steps" and "lexer_Value lx = consumed_span steps"
    by blast+
  with e n c s show ?thesis
    by (simp add: NewLexerString_def)
qed

text \<open>
  The claim as stated fails once \<open>Next\<close> has returned the sentinel: on the input \<open>''a''\<close>,
  after two calls of \<open>Next\<close> the characters consumed are \<open>a\<close>, and \<open>Emit\<close> publishes \<open>a\<close>
  followed by NUL.
\<close>

theorem emitted_text_has_NUL:
  "consumed_span (trace (exec plain [CallNext, CallNext] (NewLexerString ''a'' :: unit lexer)))
     = gostr ''a''
   \<and> map_sum id (\<lambda>lx. map Value (lex_tokens (Emit TokWord lx)))
       (final (exec plain [CallNext, CallNext] (NewLexerString ''a'' :: unit lexer)))
     = Inr [gostr ''a'' @ [0]]"
  by (simp add: ghost_defs engine_defs)

text \<open>
  C4 fails on the code at the end of the source. On the input \<open>''a''\<close>, after the first
  \<open>Next\<close> the position is (0, 1, 1) and the scan buffer is \<open>a\<close>; the second \<open>Next\<close> returns
  \<open>EOF\<close>, and the \<open>Backup\<close> that follows restores the scan buffer but leaves the position
  at (0, 0, 0): \<open>Next\<close> saved no position when it failed, and \<open>Backup\<close> pops the one saved
  for \<open>a\<close>. On the empty input there is no saved position at all, and \<open>Next\<close> then \<open>Backup\<close>
  (that is, \<open>Peek\<close>) panics. The earlier engine, with its single saved position, moves the
  position back in the same way.
\<close>

theorem Backup_after_end_of_source_moves_position:
  "map_sum id (\<lambda>lx. (lex_pos lx, lexer_Value lx))
     (final (exec plain [CallNext] (NewLexerString ''a'' :: unit lexer))) =
     Inr (\<lparr>line = 0, col = 1, pos = 1\<rparr>, gostr ''a'')
   \<and> map_sum id (\<lambda>lx. (lex_pos lx, lexer_Value lx))
     (final (exec plain [CallNext, CallNext, CallBackup] (NewLexerString ''a'' :: unit lexer))) =
     Inr (\<lparr>line = 0, col = 0, pos = 0\<rparr>, gostr ''a'')
   \<and> map (map_option (\<lambda>r. r = EOF) \<circ> step_ret)
       (trace (exec plain [CallNext, CallNext, CallBackup] (NewLexerString ''a'' :: unit lexer))) =
     [Some False, Some True, None]
   \<and> exec plain [CallNext, CallBackup] (NewLexerString [] :: unit lexer) = Inl IndexOutOfRange
   \<and> Peek plain (NewLexerString [] :: unit lexer) = Inl IndexOutOfRange
   \<and> (let lx0 = Lexer_New \<lparr>src_runes = codepoints ''a'', src_err = io_EOF\<rparr> :: unit Lexer;
           lx1 = snd (Lexer_Next plain lx0);
           lx2 = snd (Lexer_Next plain lx1)
       in (fst (Lexer_Next plain lx1) = EOF, Lex_pos lx1, Lex_value lx1,
           map_sum id (\<lambda>lx. (Lex_pos lx, Lex_value lx)) (Lexer_Backup lx2))) =
      (True, \<lparr>line = 0, col = 1, pos = 1\<rparr>, gostr ''a'',
       Inr (\<lparr>line = 0, col = 0, pos = 0\<rparr>, gostr ''a''))"
  by (simp add: ghost_defs engine_defs Lexer_defs)

text \<open>
  Where \<open>Next\<close> returns a character, \<open>Backup\<close> directly after it does restore the position,
  the scan buffer, and the stack of saved positions, in every state of the engine.
\<close>

lemma Next_Backup_restores:
  assumes "Next sprintf lx = Inr (r, lx1)" "r \<noteq> EOF"
  shows "\<exists>lx2. Backup lx1 = Inr lx2 \<and> lex_pos lx2 = lex_pos lx \<and> lex_value lx2 = lex_value lx
     \<and> lex_prevPos lx2 = lex_prevPos lx \<and> lex_tokenPos lx2 = lex_tokenPos lx
     \<and> lex_tokens lx2 = lex_tokens lx \<and> lex_eof lx2 = lex_eof lx"
  using assms
  by (auto simp: Next_def Backup_def Let_def CopyTo_def pos0_def split: sum.splits option.splits)

text \<open>
  C5 fails on the code once \<open>Backup\<close> has followed a \<open>Next\<close> that returned \<open>EOF\<close> (the defect
  of C4). On the input \<open>''a''\<close>, after \<open>Next\<close> and \<open>Peek\<close> the engine has consumed \<open>a\<close> (it
  is in the scan buffer) and \<open>Line()\<close>, \<open>Col()\<close>, \<open>Pos()\<close> are (0, 0, 0), not (0, 1, 1). At the
  end of the scan of \<open>''  foo bar\<newline>    baz    ''\<close> by the state functions of the test
  suite all 21 characters are consumed and the position is (1, 10, 20), not (1, 11, 21).
\<close>

theorem position_behind_after_Peek_at_end:
  "map_sum id (\<lambda>lx. (lexer_Line lx, lexer_Col lx, lexer_Pos lx, lexer_Value lx))
     (final (exec plain [CallNext, CallPeek] (NewLexerString ''a'' :: unit lexer))) =
     Inr (0, 0, 0, gostr ''a'')
   \<and> pos_of (gostr ''a'') = \<lparr>line = 0, col = 1, pos = 1\<rparr>
   \<and> map_option (map_sum id (\<lambda>lx. (lexer_Line lx, lexer_Col lx, lexer_Pos lx)))
       (Run (test_step plain) fn_lexSkipSpaces
         (NewLexerString ''  foo bar\<newline>    baz    '' :: unit lexer)) =
     Some (Inr (1, 10, 20))
   \<and> pos_of (gostr ''  foo bar\<newline>    baz    '') = \<lparr>line = 1, col = 11, pos = 21\<rparr>"
  by (simp add: ghost_defs engine_defs run_defs)

text \<open>
  Until \<open>Next\<close> has returned the sentinel the position is right: after any sequence of calls
  on a new engine, \<open>Line()\<close>, \<open>Col()\<close> and \<open>Pos()\<close> are the newlines, the characters since the
  last newline, and the characters of everything consumed so far (what was emitted or
  ignored, then the scan buffer).
\<close>

lemma position_before_end_of_source:
  assumes "exec sprintf cs (NewLexer rd) = Inr (steps, lx)" "no_sentinel steps"
  shows "lexer_Line lx = int (length (filter (\<lambda>r. r = 10) (recon steps @ lexer_Value lx)))"
    and "lexer_Col lx = int (length (takeWhile (\<lambda>r. r \<noteq> 10) (rev (recon steps @ lexer_Value lx))))"
    and "lexer_Pos lx = int (length (recon steps @ lexer_Value lx))"
proof -
  from assms have "\<not> lex_eof lx"
    by (simp add: eof_iff_sentinel)
  from inv_pos_exec [OF assms(1) this]
  show "lexer_Line lx = int (length (filter (\<lambda>r. r = 10) (recon steps @ lexer_Value lx)))"
    and "lexer_Col lx = int (length (takeWhile (\<lambda>r. r \<noteq> 10) (rev (recon steps @ lexer_Value lx))))"
    and "lexer_Pos lx = int (length (recon steps @ lexer_Value lx))"
    by (simp_all add: inv_pos_def pos_of_def lexer_Line_def lexer_Col_def lexer_Pos_def
        lexer_Value_def)
qed

text \<open>
  C6: scanning \<open>''  foo bar\<newline>    baz    ''\<close> with the state functions of the test suite
  (\<open>lexSkipSpaces\<close> first) delivers exactly the tokens \<open>foo\<close> at (line 0, column 2, offset
  2), \<open>bar\<close> at (0, 6, 6) and \<open>baz\<close> at (1, 4, 14), and then the stream is closed.
\<close>

theorem scenario_words:
  "closed_stream
     (Run (test_step sprintf) fn_lexSkipSpaces (NewLexerString ''  foo bar\<newline>    baz    '')) =
   Some
     [\<lparr>Type = TokWord, Value = gostr ''foo'', Line = 0, Col = 2, Pos = 2, Extra = None\<rparr>,
      \<lparr>Type = TokWord, Value = gostr ''bar'', Line = 0, Col = 6, Pos = 6, Extra = None\<rparr>,
      \<lparr>Type = TokWord, Value = gostr ''baz'', Line = 1, Col = 4, Pos = 14, Extra = None\<rparr>]"
  by (simp add: closed_stream_def run_defs engine_defs)

text \<open>
  C7: \<open>Errorf\<close> publishes exactly one token, whose \<open>Value\<close> is the formatted message and
  whose \<open>Line\<close>, \<open>Col\<close> and \<open>Pos\<close> are the fields of the engine's current position \<open>lex_pos\<close>,
  not those of the token-start marker \<open>lex_tokenPos\<close>; nothing else of the engine changes,
  so the scan buffer is as it was. It returns (it cannot panic), and what it returns is
  \<^verbatim>\<open>nil\<close>: the driver that is handed this result leaves its loop at once, and a state
  function whose body is \<^verbatim>\<open>return lex.Errorf(...)\<close> is run once and never followed by
  another. After four calls of \<open>Next\<close> on \<open>''a\<newline>bc''\<close> the token of \<open>Errorf\<close> is at line 1,
  column 2, offset 4, while the buffered span \<open>''a\<newline>bc''\<close> starts at (0, 0, 0) and stays in
  the buffer.
\<close>

theorem Errorf_publishes_and_halts:
  "Errorf sprintf t s args lx =
     (None,
      lx\<lparr>lex_tokens := lex_tokens lx @
        [\<lparr>Type = t, Value = sprintf s args, Line = line (lex_pos lx), Col = col (lex_pos lx),
          Pos = pos (lex_pos lx), Extra = None\<rparr>]\<rparr>)
   \<and> lexer_Value (snd (Errorf sprintf t s args lx)) = lexer_Value lx
   \<and> Run_loop step (fst (Errorf sprintf t s args lx)) lx' = Some (Inr lx')
   \<and> Run_loop (\<lambda>q lx. Inr (Errorf sprintf t s args lx)) (Some q) lx =
       Some (Inr (if lex_eof lx then lx else snd (Errorf sprintf t s args lx)))
   \<and> map_sum id
       (\<lambda>lx. (map (\<lambda>tok. (Type tok, Value tok, Line tok, Col tok, Pos tok))
                (lex_tokens (snd (Errorf plain TokError (gostr ''bad'') [] lx
                   :: unit option \<times> unit lexer))),
              lex_tokenPos lx,
              lexer_Value (snd (Errorf plain TokError (gostr ''bad'') [] lx
                   :: unit option \<times> unit lexer))))
       (final (exec plain [CallNext, CallNext, CallNext, CallNext]
          (NewLexerString ''a\<newline>bc'' :: unit lexer))) =
     Inr ([(TokError, gostr ''bad'', 1, 2, 4)], \<lparr>line = 0, col = 0, pos = 0\<rparr>,
          gostr ''a\<newline>bc'')"
proof (intro conjI)
  show "Errorf sprintf t s args lx =
     (None,
      lx\<lparr>lex_tokens := lex_tokens lx @
        [\<lparr>Type = t, Value = sprintf s args, Line = line (lex_pos lx), Col = col (lex_pos lx),
          Pos = pos (lex_pos lx), Extra = None\<rparr>]\<rparr>)"
    by (simp add: Errorf_def Let_def lexer_Line_def lexer_Col_def lexer_Pos_def)
  show "lexer_Value (snd (Errorf sprintf t s args lx)) = lexer_Value lx"
    by (simp add: Errorf_def Let_def lexer_Value_def)
  show "Run_loop step (fst (Errorf sprintf t s args lx)) lx' = Some (Inr lx')"
    by (simp add: Errorf_def Let_def Run_loop.simps)
  show "Run_loop (\<lambda>q lx. Inr (Errorf sprintf t s args lx)) (Some q) lx =
       Some (Inr (if lex_eof lx then lx else snd (Errorf sprintf t s args lx)))"
    by (simp add: Errorf_def Let_def Run_loop.simps)
  show "map_sum id
       (\<lambda>lx. (map (\<lambda>tok. (Type tok, Value tok, Line tok, Col tok, Pos tok))
                (lex_tokens (snd (Errorf plain TokError (gostr ''bad'') [] lx
                   :: unit option \<times> unit lexer))),
              lex_tokenPos lx,
              lexer_Value (snd (Errorf plain TokError (gostr ''bad'') [] lx
                   :: unit option \<times> unit lexer))))
       (final (exec plain [CallNext, CallNext, CallNext, CallNext]
          (NewLexerString ''a\<newline>bc'' :: unit lexer))) =
     Inr ([(TokError, gostr ''bad'', 1, 2, 4)], \<lparr>line = 0, col = 0, pos = 0\<rparr>,
          gostr ''a\<newline>bc'')"
    by (simp add: ghost_defs engine_defs)
qed

text \<open>
  C8, as the code has it by design: on an engine reached from a new one by any sequence of
  calls in which \<open>Next\<close> has not returned the end-of-source sentinel, \<open>Value()\<close> holds the
  characters consumed since the last \<open>Emit\<close> or \<open>Ignore\<close> and not yet backed up, and \<open>Backup\<close>
  panics (slice bounds out of range) exactly when there is none. When there is one, \<open>Backup\<close>
  returns, whether or not another \<open>Backup\<close> went directly before it: it removes the last
  character from the scan buffer and sets the position to that of the end of what is
  consumed then; the token-start marker and the tokens are untouched, and the character
  is put back: a \<open>Next\<close> directly after returns it and leaves the engine exactly as it was
  before the \<open>Backup\<close>. In particular
  \<open>Backup\<close> panics on a new engine and directly after \<open>Ignore\<close>, \<open>Emit\<close> or \<open>EmitExtra\<close>. What
  \<open>Backup\<close> does once \<open>Next\<close> has returned the sentinel is not part of this statement.
\<close>

theorem Backup_panics_iff_nothing_to_undo:
  fixes lx :: "'x lexer"
  shows
  "Backup (NewLexer rd :: 'x lexer) = Inl SliceBoundsOutOfRange
   \<and> Backup (Ignore lx0) = Inl SliceBoundsOutOfRange
   \<and> Backup (EmitExtra t extra lx0) = Inl SliceBoundsOutOfRange
   \<and> (exec sprintf cs (NewLexer rd') = Inr (steps, lx) \<and> no_sentinel steps \<longrightarrow>
        lexer_Value lx = consumed_span steps
        \<and> (if lexer_Value lx = [] then Backup lx = Inl SliceBoundsOutOfRange
            else \<exists>lx2. Backup lx = Inr lx2
                   \<and> lexer_Value lx2 = butlast (lexer_Value lx)
                   \<and> lex_pos lx2 = pos_of (recon steps @ butlast (lexer_Value lx))
                   \<and> lex_tokenPos lx2 = lex_tokenPos lx
                   \<and> lex_tokens lx2 = lex_tokens lx
                   \<and> Next sprintf lx2 = Inr (last (lexer_Value lx), lx)))"
proof (intro conjI impI)
  show "Backup (NewLexer rd :: 'x lexer) = Inl SliceBoundsOutOfRange"
    by (simp add: Backup_def NewLexer_def Let_def)
  show "Backup (Ignore lx0) = Inl SliceBoundsOutOfRange"
    by (simp add: Backup_def Ignore_def Let_def)
  show "Backup (EmitExtra t extra lx0) = Inl SliceBoundsOutOfRange"
    by (simp add: Backup_def EmitExtra_def Ignore_def Let_def)
next
  assume a: "exec sprintf cs (NewLexer rd') = Inr (steps, lx) \<and> no_sentinel steps"
  then have n: "\<not> lex_eof lx"
    using eof_iff_sentinel by blast
  with a inv_span_exec [of sprintf cs rd' steps lx]
  show "lexer_Value lx = consumed_span steps"
    by (simp add: inv_span_def lexer_Value_def)
next
  assume a: "exec sprintf cs (NewLexer rd') = Inr (steps, lx) \<and> no_sentinel steps"
  then have "\<not> lex_eof lx"
    using eof_iff_sentinel by blast
  with a have i: "inv_pos steps lx"
    using inv_pos_exec by blast
  show "if lexer_Value lx = [] then Backup lx = Inl SliceBoundsOutOfRange
        else \<exists>lx2. Backup lx = Inr lx2
               \<and> lexer_Value lx2 = butlast (lexer_Value lx)
               \<and> lex_pos lx2 = pos_of (recon steps @ butlast (lexer_Value lx))
               \<and> lex_tokenPos lx2 = lex_tokenPos lx
               \<and> lex_tokens lx2 = lex_tokens lx
               \<and> Next sprintf lx2 = Inr (last (lexer_Value lx), lx)"
  proof (cases "lex_value lx = []")
    case True
    then show ?thesis
      by (simp add: Backup_def Let_def lexer_Value_def)
  next
    case False
    from a have "inv_reader lx"
      using inv_reader_exec by blast
    from Backup_Next_round_trip [OF i this \<open>\<not> lex_eof lx\<close> False, of sprintf]
    obtain lx2 where b: "Backup lx = Inr lx2"
      and x: "Next sprintf lx2 = Inr (last (lex_value lx), lx)"
      by blast
    let ?b = "\<lparr>step_call = CallBackup, step_ret = None, step_before = lx, step_after = lx2\<rparr>"
    from inv_pos_Backup [OF i b, of None] have "inv_pos (steps @ [?b]) lx2" .
    then have "lex_pos lx2 = pos_of (recon steps @ lex_value lx2)"
      by (simp add: inv_pos_def recon_snoc events_of_def)
    with b x Backup_ok [OF b] False show ?thesis
      by (simp add: lexer_Value_def)
  qed
qed

theorem Backup_panics_iff_nothing_to_undo_witness:
  "(case exec plain [CallNext, CallNext, CallBackup] (NewLexerString ''ab'' :: unit lexer) of
      Inl p \<Rightarrow> False
    | Inr (steps, lx) \<Rightarrow>
        no_sentinel steps \<and> lexer_Value lx = gostr ''a'' \<and> consumed_span steps = gostr ''a''
        \<and> recon steps = []
        \<and> (\<exists>lx2. Backup lx = Inr lx2 \<and> lexer_Value lx2 = [] \<and> lex_pos lx2 = pos0
              \<and> Next plain lx2 = Inr (97, lx)))
   \<and> (case exec plain [CallNext, CallBackup] (NewLexerString ''ab'' :: unit lexer) of
      Inl p \<Rightarrow> False
    | Inr (steps, lx) \<Rightarrow>
        no_sentinel steps \<and> lexer_Value lx = [] \<and> Backup lx = Inl SliceBoundsOutOfRange)"
proof -
  let ?rd = "\<lparr>src_runes = codepoints ''ab'', src_err = io_EOF\<rparr>"
  let ?lx0 = "NewLexer ?rd :: unit lexer"
  have "\<exists>steps lx. exec plain [CallNext, CallNext, CallBackup] ?lx0 = Inr (steps, lx)
      \<and> no_sentinel steps \<and> lexer_Value lx = gostr ''a'' \<and> recon steps = []"
    by (simp add: engine_defs ghost_defs)
  then obtain steps lx where
    e: "exec plain [CallNext, CallNext, CallBackup] ?lx0 = Inr (steps, lx)"
    and n: "no_sentinel steps" and v: "lexer_Value lx = gostr ''a''" and r: "recon steps = []"
    by (elim exE conjE)
  from Backup_panics_iff_nothing_to_undo [of _ _ _ _ plain "[CallNext, CallNext, CallBackup]"
      ?rd steps lx] e n
  have b: "lexer_Value lx = consumed_span steps"
    "if lexer_Value lx = [] then Backup lx = Inl SliceBoundsOutOfRange
     else \<exists>lx2. Backup lx = Inr lx2
            \<and> lexer_Value lx2 = butlast (lexer_Value lx)
            \<and> lex_pos lx2 = pos_of (recon steps @ butlast (lexer_Value lx))
            \<and> lex_tokenPos lx2 = lex_tokenPos lx
            \<and> lex_tokens lx2 = lex_tokens lx
            \<and> Next plain lx2 = Inr (last (lexer_Value lx), lx)"
    by blast+
  from b(2) v r have b2: "\<exists>lx2. Backup lx = Inr lx2 \<and> lexer_Value lx2 = [] \<and> lex_pos lx2 = pos0
      \<and> Next plain lx2 = Inr (97, lx)"
    by (auto simp: gostr_def codepoints_def pos_of_def pos0_def)
  have "\<exists>steps lx. exec plain [CallNext, CallBackup] ?lx0 = Inr (steps, lx)
      \<and> no_sentinel steps \<and> lexer_Value lx = []"
    by (simp add: engine_defs ghost_defs)
  then obtain steps' lx' where
    e': "exec plain [CallNext, CallBackup] ?lx0 = Inr (steps', lx')"
    and n': "no_sentinel steps'" and v': "lexer_Value lx' = []"
    by (elim exE conjE)
  from Backup_panics_iff_nothing_to_undo [of _ _ _ _ plain "[CallNext, CallBackup]"
      ?rd steps' lx'] e' n'
  have "if lexer_Value lx' = [] then Backup lx' = Inl SliceBoundsOutOfRange
     else \<exists>lx2. Backup lx' = Inr lx2
            \<and> lexer_Value lx2 = butlast (lexer_Value lx')
            \<and> lex_pos lx2 = pos_of (recon steps' @ butlast (lexer_Value lx'))
            \<and> lex_tokenPos lx2 = lex_tokenPos lx'
            \<and> lex_tokens lx2 = lex_tokens lx'
            \<and> Next plain lx2 = Inr (last (lexer_Value lx'), lx')"
    by blast
  with v' have b': "Backup lx' = Inl SliceBoundsOutOfRange"
    by simp
  from e n v r b(1) b2 e' n' v' b' show ?thesis
    by (simp add: NewLexerString_def)
qed

text \<open>
  The claim as stated fails: on the input \<open>''ab''\<close>, after \<open>Next\<close>, \<open>Next\<close>, \<open>Backup\<close> there is
  no \<open>Next\<close> since the most recent \<open>Backup\<close>, and a second \<open>Backup\<close> returns normally, with
  the engine back at the start of the input: both characters are undone, and two calls of
  \<open>Next\<close> deliver them again.
\<close>

theorem Backup_after_Backup_returns:
  "returns (exec plain [CallNext, CallNext, CallBackup] (NewLexerString ''ab'' :: unit lexer))
   \<and> map_sum id (\<lambda>lx. (lex_pos lx, lexer_Value lx))
        (final (exec plain [CallNext, CallNext, CallBackup, CallBackup]
           (NewLexerString ''ab'' :: unit lexer))) = Inr (pos0, [])
   \<and> map step_ret (trace (exec plain
        [CallNext, CallNext, CallBackup, CallBackup, CallNext, CallNext]
        (NewLexerString ''ab'' :: unit lexer))) =
      [Some 97, Some 98, None, None, Some 97, Some 98]"
  by (simp add: ghost_defs engine_defs)

text \<open>
  C9: whenever \<^verbatim>\<open>ReadRune\<close> reports an error to \<open>Next\<close> (\<^verbatim>\<open>io.EOF\<close> or any other), \<open>Next\<close>
  returns \<open>EOF\<close>, appends the rune \<open>0\<close> to the scan buffer, leaves the position alone and
  sets the end-of-source flag; every further \<open>Next\<close> does the same, so \<open>n\<close> more calls leave
  \<open>n + 1\<close> NUL characters at the end of \<open>Value()\<close>, and an \<open>Emit\<close> at that point publishes them
  in the token's text. On a new engine: \<open>length s + n + 1\<close> calls of \<open>Next\<close> on the input \<open>s\<close>
  return the characters of \<open>s\<close> and then \<open>EOF\<close> every time, and leave \<open>s\<close> followed by \<open>n + 1\<close>
  NULs in the scan buffer, at the position of the end of \<open>s\<close>. The \<open>Next\<close> of the earlier
  engine does the same on a source that is used up, and leaves it used up.
\<close>

theorem Next_at_end_appends_NUL:
  fixes lx :: "'x lexer" and sprintf :: "gostring \<Rightarrow> 'a list \<Rightarrow> gostring"
  shows
  "(br_ReadRune (lex_r lx) = Inr (r, Some e, br) \<longrightarrow>
      (\<exists>lx'. Next sprintf lx = Inr (EOF, lx') \<and> lexer_Value lx' = lexer_Value lx @ [0]
         \<and> lex_pos lx' = lex_pos lx \<and> lex_eof lx'
         \<and> (\<forall>n. \<exists>steps lx''.
               exec sprintf (replicate n CallNext) lx' = Inr (steps, lx'')
               \<and> map step_ret steps = replicate n (Some EOF)
               \<and> lexer_Value lx'' = lexer_Value lx @ replicate (Suc n) 0
               \<and> lex_pos lx'' = lex_pos lx
               \<and> lex_tokens (Emit t lx'') = lex_tokens lx'' @
                   [\<lparr>Type = t, Value = lexer_Value lx @ replicate (Suc n) 0,
                     Line = line (lex_tokenPos lx), Col = col (lex_tokenPos lx),
                     Pos = pos (lex_tokenPos lx), Extra = None\<rparr>])))
   \<and> (\<exists>steps lx'.
         exec sprintf (replicate (length s + Suc n) CallNext)
           (NewLexer \<lparr>src_runes = s, src_err = e'\<rparr> :: 'x lexer) = Inr (steps, lx')
         \<and> map step_ret steps = map (\<lambda>c. Some (int c)) s @ replicate (Suc n) (Some EOF)
         \<and> lexer_Value lx' = map int s @ replicate (Suc n) 0
         \<and> lex_pos lx' = pos_of (map int s))
   \<and> (let old = l\<lparr>Lex_r := (Lex_r l)\<lparr>src_runes := []\<rparr>\<rparr>;
           new = snd (Lexer_Next sprintf old)
       in fst (Lexer_Next sprintf old) = EOF \<and> Lex_value new = Lex_value l @ [0]
          \<and> Lex_pos new = Lex_pos l \<and> Lex_eof new \<and> src_runes (Lex_r new) = [])"
proof (intro conjI impI)
  assume f: "br_ReadRune (lex_r lx) = Inr (r, Some e, br)"
  from Next_fails [OF f, of sprintf] obtain lx' where
    n: "Next sprintf lx = Inr (EOF, lx')" and v: "lex_value lx' = lex_value lx @ [0]"
    and p: "lex_pos lx' = lex_pos lx" and eo: "lex_eof lx'" and e: "br_err (lex_r lx') = Some e"
    and tp: "lex_tokenPos lx' = lex_tokenPos lx"
    by (auto simp: Errorf_def Let_def)
  have "\<exists>steps lx''.
          exec sprintf (replicate k CallNext) lx' = Inr (steps, lx'')
          \<and> map step_ret steps = replicate k (Some EOF)
          \<and> lexer_Value lx'' = lexer_Value lx @ replicate (Suc k) 0
          \<and> lex_pos lx'' = lex_pos lx
          \<and> lex_tokens (Emit t lx'') = lex_tokens lx'' @
              [\<lparr>Type = t, Value = lexer_Value lx @ replicate (Suc k) 0,
                Line = line (lex_tokenPos lx), Col = col (lex_tokenPos lx),
                Pos = pos (lex_tokenPos lx), Extra = None\<rparr>]" for k
    using Next_repeated_at_end [OF e, of sprintf k] v p tp
    by (auto simp: lexer_Value_def Emit_def EmitExtra_ok)
  with n v p eo show "\<exists>lx'. Next sprintf lx = Inr (EOF, lx') \<and> lexer_Value lx' = lexer_Value lx @ [0]
         \<and> lex_pos lx' = lex_pos lx \<and> lex_eof lx'
         \<and> (\<forall>n. \<exists>steps lx''.
               exec sprintf (replicate n CallNext) lx' = Inr (steps, lx'')
               \<and> map step_ret steps = replicate n (Some EOF)
               \<and> lexer_Value lx'' = lexer_Value lx @ replicate (Suc n) 0
               \<and> lex_pos lx'' = lex_pos lx
               \<and> lex_tokens (Emit t lx'') = lex_tokens lx'' @
                   [\<lparr>Type = t, Value = lexer_Value lx @ replicate (Suc n) 0,
                     Line = line (lex_tokenPos lx), Col = col (lex_tokenPos lx),
                     Pos = pos (lex_tokenPos lx), Extra = None\<rparr>])"
    by (auto simp: lexer_Value_def)
next
  from Next_reads_all [where lx = "NewLexer \<lparr>src_runes = s, src_err = e'\<rparr> :: 'x lexer" and s = s
      and c = "[]" and sprintf = sprintf]
  obtain steps1 lx1 where
    e1: "exec sprintf (replicate (length s) CallNext) (NewLexer \<lparr>src_runes = s, src_err = e'\<rparr> :: 'x lexer)
          = Inr (steps1, lx1)"
    and r1: "map step_ret steps1 = map (\<lambda>c. Some (int c)) s"
    and v1: "lex_value lx1 = map int s" and p1: "lex_pos lx1 = pos_of (map int s)"
    and b1: "br_err (lex_r lx1) = None" "br_pos (lex_r lx1) = int (length (br_buf (lex_r lx1)))"
      "src_runes (br_r (lex_r lx1)) = []"
    by (auto simp: NewLexer_def newbufreader_def pos0_def pos_of_def)
  from Next_at_exhausted [OF b1] have "\<exists>e br. br_ReadRune (lex_r lx1) = Inr (0, Some e, br)"
    by blast
  then obtain e br where f: "br_ReadRune (lex_r lx1) = Inr (0, Some e, br)" by blast
  from Next_fails [OF f, of sprintf] obtain lx2 where
    n2: "Next sprintf lx1 = Inr (EOF, lx2)" and v2: "lex_value lx2 = lex_value lx1 @ [0]"
    and p2: "lex_pos lx2 = lex_pos lx1" and e2: "br_err (lex_r lx2) = Some e"
    by (auto simp: Errorf_def Let_def)
  from Next_repeated_at_end [OF e2, of sprintf n] obtain steps3 lx3 where
    e3: "exec sprintf (replicate n CallNext) lx2 = Inr (steps3, lx3)"
    and r3: "map step_ret steps3 = replicate n (Some EOF)"
    and v3: "lex_value lx3 = lex_value lx2 @ replicate n 0" and p3: "lex_pos lx3 = lex_pos lx2"
    by blast
  have rep: "replicate (length s + Suc n) x = replicate (length s) x @ x # replicate n x"
    for x :: "('y, 'z) call"
    by (simp only: replicate_add replicate_Suc)
  have ex: "exec sprintf (replicate (length s + Suc n) CallNext)
          (NewLexer \<lparr>src_runes = s, src_err = e'\<rparr> :: 'x lexer) =
        Inr (steps1 @ \<lparr>step_call = CallNext, step_ret = Some EOF, step_before = lx1,
                        step_after = lx2\<rparr> # steps3, lx3)"
    unfolding rep using e1 n2 e3 by (simp add: exec_append)
  have "map step_ret (steps1 @ \<lparr>step_call = CallNext, step_ret = Some EOF, step_before = lx1,
                        step_after = lx2\<rparr> # steps3) =
          map (\<lambda>c. Some (int c)) s @ replicate (Suc n) (Some EOF)
        \<and> lexer_Value lx3 = map int s @ replicate (Suc n) 0
        \<and> lex_pos lx3 = pos_of (map int s)"
    using r1 v1 p1 v2 p2 r3 v3 p3 by (simp add: lexer_Value_def)
  with ex show "\<exists>steps lx'.
         exec sprintf (replicate (length s + Suc n) CallNext)
           (NewLexer \<lparr>src_runes = s, src_err = e'\<rparr> :: 'x lexer) = Inr (steps, lx')
         \<and> map step_ret steps = map (\<lambda>c. Some (int c)) s @ replicate (Suc n) (Some EOF)
         \<and> lexer_Value lx' = map int s @ replicate (Suc n) 0
         \<and> lex_pos lx' = pos_of (map int s)"
    by blast
next
  show "let old = l\<lparr>Lex_r := (Lex_r l)\<lparr>src_runes := []\<rparr>\<rparr>;
            new = snd (Lexer_Next sprintf old)
        in fst (Lexer_Next sprintf old) = EOF \<and> Lex_value new = Lex_value l @ [0]
           \<and> Lex_pos new = Lex_pos l \<and> Lex_eof new \<and> src_runes (Lex_r new) = []"
    by (simp add: Lexer_defs Let_def)
qed

theorem Next_at_end_appends_NUL_witness:
  "br_ReadRune (lex_r (NewLexerString [] :: unit lexer)) =
     Inr (0, Some io_EOF, (lex_r (NewLexerString [] :: unit lexer))\<lparr>br_err := Some io_EOF\<rparr>)
   \<and> (\<exists>lx'. Next (\<lambda>s (args :: unit list). s) (NewLexerString [] :: unit lexer) = Inr (EOF, lx')
          \<and> lexer_Value lx' = [0] \<and> lex_pos lx' = pos0 \<and> lex_eof lx'
          \<and> (\<exists>steps lx''.
                exec (\<lambda>s (args :: unit list). s) (replicate 2 CallNext) lx' = Inr (steps, lx'')
                \<and> lexer_Value lx'' = [0, 0, 0]
                \<and> map Value (lex_tokens (Emit TokWord lx'')) = [[0, 0, 0]]))"
proof -
  let ?lx = "NewLexerString [] :: unit lexer"
  let ?sp = "\<lambda>s (args :: unit list). s"
  have h: "br_ReadRune (lex_r ?lx) = Inr (0, Some io_EOF, (lex_r ?lx)\<lparr>br_err := Some io_EOF\<rparr>)"
    by (simp add: engine_defs)
  from Next_at_end_appends_NUL [of ?lx 0 io_EOF "(lex_r ?lx)\<lparr>br_err := Some io_EOF\<rparr>" ?sp
      TokWord "[]" 0 io_EOF] h
  obtain lx' where
    n: "Next ?sp ?lx = Inr (EOF, lx')" and v: "lexer_Value lx' = lexer_Value ?lx @ [0]"
    and p: "lex_pos lx' = lex_pos ?lx" and e: "lex_eof lx'"
    and a: "\<forall>n. \<exists>steps lx''.
               exec ?sp (replicate n CallNext) lx' = Inr (steps, lx'')
               \<and> map step_ret steps = replicate n (Some EOF)
               \<and> lexer_Value lx'' = lexer_Value ?lx @ replicate (Suc n) 0
               \<and> lex_pos lx'' = lex_pos ?lx
               \<and> lex_tokens (Emit TokWord lx'') = lex_tokens lx'' @
                   [\<lparr>Type = TokWord, Value = lexer_Value ?lx @ replicate (Suc n) 0,
                     Line = line (lex_tokenPos ?lx), Col = col (lex_tokenPos ?lx),
                     Pos = pos (lex_tokenPos ?lx), Extra = None\<rparr>]"
    by blast
  from a obtain steps lx'' where
    x: "exec ?sp (replicate 2 CallNext) lx' = Inr (steps, lx'')"
    and v2: "lexer_Value lx'' = lexer_Value ?lx @ replicate (Suc 2) 0"
    and t2: "lex_tokens (Emit TokWord lx'') = lex_tokens lx'' @
                   [\<lparr>Type = TokWord, Value = lexer_Value ?lx @ replicate (Suc 2) 0,
                     Line = line (lex_tokenPos ?lx), Col = col (lex_tokenPos ?lx),
                     Pos = pos (lex_tokenPos ?lx), Extra = None\<rparr>]"
    by blast
  have tk: "lex_tokens lx'' = []"
    using n x by (auto simp: engine_defs numeral_2_eq_2 split: sum.splits)
  have "lexer_Value ?lx = []" "lex_pos ?lx = pos0"
    by (simp_all add: engine_defs)
  with h n v p e x v2 t2 tk show ?thesis
    by (simp add: numeral_3_eq_3)
qed

text \<open>
  C10: until \<open>Next\<close> has returned the end-of-source sentinel for the first time
  (\<open>no_sentinel\<close>; equivalently, the flag \<open>lex_eof\<close> is still unset), after every sequence
  of calls of \<open>Next\<close>, \<open>Peek\<close>, \<open>Backup\<close>, \<open>Emit\<close>, \<open>EmitExtra\<close>, \<open>Ignore\<close> and \<open>Errorf\<close> on a new
  engine the current offset minus the token-start offset is the length of the scan buffer.
\<close>

theorem offset_difference_is_buffer_length:
  assumes "exec sprintf cs (NewLexer rd) = Inr (steps, lx)" "no_sentinel steps"
  shows "pos (lex_pos lx) - pos (lex_tokenPos lx) = int (length (lex_value lx))"
proof -
  from assms have "\<not> lex_eof lx"
    by (simp add: eof_iff_sentinel)
  from inv_pos_exec [OF assms(1) this] show ?thesis
    by (simp add: inv_pos_def pos_of_def)
qed

theorem offset_difference_is_buffer_length_witness:
  "case exec plain [CallNext, CallNext, CallBackup, CallEmit TokWord, CallNext]
          (NewLexerString ''ab'' :: unit lexer) of
     Inl p \<Rightarrow> False
   | Inr (steps, lx) \<Rightarrow>
       no_sentinel steps \<and> lex_value lx = gostr ''b''
       \<and> pos (lex_pos lx) = 2 \<and> pos (lex_tokenPos lx) = 1
       \<and> pos (lex_pos lx) - pos (lex_tokenPos lx) = int (length (lex_value lx))"
proof -
  let ?cs = "[CallNext, CallNext, CallBackup, CallEmit TokWord, CallNext] :: (unit, unit) call list"
  let ?rd = "\<lparr>src_runes = codepoints ''ab'', src_err = io_EOF\<rparr>"
  have "\<exists>steps lx. exec plain ?cs (NewLexer ?rd :: unit lexer) = Inr (steps, lx)
      \<and> no_sentinel steps \<and> lex_value lx = gostr ''b''
      \<and> pos (lex_pos lx) = 2 \<and> pos (lex_tokenPos lx) = 1"
    by (simp add: engine_defs ghost_defs)
  then obtain steps lx where
    e: "exec plain ?cs (NewLexer ?rd :: unit lexer) = Inr (steps, lx)"
    and n: "no_sentinel steps" and v: "lex_value lx = gostr ''b''"
    and p: "pos (lex_pos lx) = 2" "pos (lex_tokenPos lx) = 1"
    by (elim exE conjE)
  from offset_difference_is_buffer_length [OF e n] e n v p show ?thesis
    by (simp add: NewLexerString_def)
qed

end
